theory Spec2Isabelle
  imports Main
begin

section \<open>Data model\<close>

text \<open>
  A shallow embedding of \<^verbatim>\<open>chart2melodics.py\<close>. A MIDI message of the codec library is
  a value with a type, a delta time and type-specific attributes. Only the types
  \<^verbatim>\<open>note_on\<close> and \<^verbatim>\<open>note_off\<close> are inspected by the program, and the codec reads and
  writes the meta message \<^verbatim>\<open>track_name\<close> when a track is named; every other message (meta,
  program change, ...) is carried as an opaque payload. Python integers are \<open>int\<close>.
  The codec library's own range checks on attribute values are outside the model.
\<close>

datatype message =
    NoteOn int int int int   \<comment> \<open>channel, note, velocity, time\<close>
  | NoteOff int int int int  \<comment> \<open>channel, note, velocity, time\<close>
  | TrackName string int     \<comment> \<open>name, time\<close>
  | Other string int         \<comment> \<open>payload, time\<close>

fun is_note_on :: "message \<Rightarrow> bool" where
  "is_note_on (NoteOn c n v t) = True"
| "is_note_on m = False"

fun is_note_off :: "message \<Rightarrow> bool" where
  "is_note_off (NoteOff c n v t) = True"
| "is_note_off m = False"

fun mtime :: "message \<Rightarrow> int" where
  "mtime (NoteOn c n v t) = t"
| "mtime (NoteOff c n v t) = t"
| "mtime (TrackName x t) = t"
| "mtime (Other p t) = t"

text \<open>
  The attributes \<^verbatim>\<open>note\<close>, \<^verbatim>\<open>velocity\<close> and \<^verbatim>\<open>channel\<close>. The program reads them, and
  overrides them with \<^verbatim>\<open>msg.copy(...)\<close>, on \<^verbatim>\<open>note_on\<close> messages only (every access
  follows a test of the type); the equations for \<open>TrackName\<close> and \<open>Other\<close> are never
  reached and only make the functions total.
\<close>

fun note_of :: "message \<Rightarrow> int" where
  "note_of (NoteOn c n v t) = n"
| "note_of (NoteOff c n v t) = n"
| "note_of (TrackName x t) = 0"
| "note_of (Other p t) = 0"

fun velocity_of :: "message \<Rightarrow> int" where
  "velocity_of (NoteOn c n v t) = v"
| "velocity_of (NoteOff c n v t) = v"
| "velocity_of (TrackName x t) = 0"
| "velocity_of (Other p t) = 0"

fun channel_of :: "message \<Rightarrow> int" where
  "channel_of (NoteOn c n v t) = c"
| "channel_of (NoteOff c n v t) = c"
| "channel_of (TrackName x t) = 0"
| "channel_of (Other p t) = 0"

text \<open>\<^verbatim>\<open>msg.copy(note=n)\<close>, \<^verbatim>\<open>msg.copy(velocity=w)\<close> and \<^verbatim>\<open>msg.copy(time=d)\<close>\<close>

fun copy_note :: "int \<Rightarrow> message \<Rightarrow> message" where
  "copy_note n' (NoteOn c n v t) = NoteOn c n' v t"
| "copy_note n' (NoteOff c n v t) = NoteOff c n' v t"
| "copy_note n' (TrackName x t) = TrackName x t"
| "copy_note n' (Other p t) = Other p t"

fun copy_velocity :: "int \<Rightarrow> message \<Rightarrow> message" where
  "copy_velocity w (NoteOn c n v t) = NoteOn c n w t"
| "copy_velocity w (NoteOff c n v t) = NoteOff c n w t"
| "copy_velocity w (TrackName x t) = TrackName x t"
| "copy_velocity w (Other p t) = Other p t"

fun copy_time :: "int \<Rightarrow> message \<Rightarrow> message" where
  "copy_time d (NoteOn c n v t) = NoteOn c n v d"
| "copy_time d (NoteOff c n v t) = NoteOff c n v d"
| "copy_time d (TrackName x t) = TrackName x d"
| "copy_time d (Other p t) = Other p d"

text \<open>An event is the dictionary \<^verbatim>\<open>{"tick": ..., "track": ..., "msg": ...}\<close>.\<close>

record event =
  tick :: int
  track :: int
  msg :: message

text \<open>
  A \<^verbatim>\<open>defaultdict(list)\<close> is an association list in insertion order; a dictionary holds
  each key once. \<open>dd_append k v d\<close> is \<^verbatim>\<open>d[k].append(v)\<close>, \<open>dd_get d k\<close> is \<^verbatim>\<open>d[k]\<close> and
  \<open>sorted_keys d\<close> is \<^verbatim>\<open>sorted(d.keys())\<close>.
\<close>

fun dd_append :: "'k \<Rightarrow> 'v \<Rightarrow> ('k \<times> 'v list) list \<Rightarrow> ('k \<times> 'v list) list" where
  "dd_append k v [] = [(k, [v])]"
| "dd_append k v ((k', vs) # d) =
     (if k' = k then (k', vs @ [v]) # d else (k', vs) # dd_append k v d)"

definition dd_get :: "('k \<times> 'v list) list \<Rightarrow> 'k \<Rightarrow> 'v list" where
  "dd_get d k = (case map_of d k of Some vs \<Rightarrow> vs | None \<Rightarrow> [])"

definition sorted_keys :: "(int \<times> 'v list) list \<Rightarrow> int list" where
  "sorted_keys d = sort (map fst d)"

text \<open>The event table \<^verbatim>\<open>events_by_tick\<close>: from a tick to the list of events at that tick.\<close>

type_synonym event_table = "(int \<times> event list) list"

definition all_events :: "event_table \<Rightarrow> event list" where
  "all_events tbl = concat (map snd tbl)"

definition no_note_off :: "event_table \<Rightarrow> bool" where
  "no_note_off tbl = list_all (\<lambda>e. \<not> is_note_off (msg e)) (all_events tbl)"

text \<open>A track of the container is the list of its messages.\<close>

record midi_track =
  messages :: "message list"

record midi_file =
  ticks_per_beat :: int
  tracks :: "midi_track list"

definition EXPECTED_TPB :: int where
  "EXPECTED_TPB = 96"

definition DEFAULT_DURATION :: int where
  "DEFAULT_DURATION = 8"

datatype py_error =
    TpbValueError int     \<comment> \<open>the ValueError raised by \<^verbatim>\<open>read_midi_events\<close>\<close>
  | MinEmptyValueError    \<comment> \<open>the ValueError of \<^verbatim>\<open>min()\<close> on an empty sequence\<close>
  | IndexError

definition and_then :: "py_error + 'a \<Rightarrow> ('a \<Rightarrow> py_error + 'b) \<Rightarrow> py_error + 'b" where
  "and_then r f = (case r of Inl err \<Rightarrow> Inl err | Inr x \<Rightarrow> f x)"

section \<open>Step 1: ingestion\<close>

text \<open>
  \<^verbatim>\<open>read_midi_events\<close>, from the parsed container on. The inner loop over one track
  accumulates \<^verbatim>\<open>abs_time\<close>, skips \<^verbatim>\<open>note_off\<close> and appends every other message.
\<close>

fun read_track :: "int \<Rightarrow> int \<Rightarrow> message list \<Rightarrow> event_table \<Rightarrow> event_table" where
  "read_track track_index abs_time [] events_by_tick = events_by_tick"
| "read_track track_index abs_time (m # ms) events_by_tick =
     (let abs_time' = abs_time + mtime m in
      if is_note_off m then read_track track_index abs_time' ms events_by_tick
      else read_track track_index abs_time' ms
             (dd_append abs_time' \<lparr>tick = abs_time', track = track_index, msg = m\<rparr>
                events_by_tick))"

fun read_tracks :: "int \<Rightarrow> midi_track list \<Rightarrow> event_table \<Rightarrow> event_table" where
  "read_tracks track_index [] events_by_tick = events_by_tick"
| "read_tracks track_index (tr # trs) events_by_tick =
     read_tracks (track_index + 1) trs (read_track track_index 0 (messages tr) events_by_tick)"

definition read_midi_events :: "midi_file \<Rightarrow> py_error + event_table" where
  "read_midi_events mid =
     (if ticks_per_beat mid \<noteq> EXPECTED_TPB then Inl (TpbValueError (ticks_per_beat mid))
      else Inr (read_tracks 0 (tracks mid) []))"

section \<open>Step 2: rewrite rules\<close>

subsection \<open>\<^verbatim>\<open>replace_composite_notes\<close>\<close>

text \<open>
  \<^verbatim>\<open>min(seq, key=lambda e: e["msg"].note)\<close>: the first element with the least key;
  \<open>None\<close> stands for the ValueError on an empty sequence.
\<close>

fun min_from :: "event \<Rightarrow> event list \<Rightarrow> event" where
  "min_from best [] = best"
| "min_from best (e # es) =
     min_from (if note_of (msg e) < note_of (msg best) then e else best) es"

fun min_by_note :: "event list \<Rightarrow> event option" where
  "min_by_note [] = None"
| "min_by_note (e # es) = Some (min_from e es)"

text \<open>The body of the loop over ticks; \<open>match_notes\<close> is a Python set.\<close>

definition found_indices :: "int set \<Rightarrow> event list \<Rightarrow> nat list" where
  "found_indices match_notes note_ons =
     filter (\<lambda>i. note_of (msg (note_ons ! i)) \<in> match_notes) [0..<length note_ons]"

definition replace_composite_tick ::
  "int set \<Rightarrow> int \<Rightarrow> event list \<Rightarrow> py_error + event list" where
  "replace_composite_tick match_notes replace_with events =
     (let note_ons = filter (\<lambda>e. is_note_on (msg e)) events;
          other_events = filter (\<lambda>e. \<not> is_note_on (msg e)) events;
          found = found_indices match_notes note_ons
      in if length found = card match_notes then
           (case min_by_note (map (\<lambda>i. note_ons ! i) found) of
              None \<Rightarrow> Inl MinEmptyValueError
            | Some base_event \<Rightarrow>
                (let new_event = base_event\<lparr>msg := copy_note replace_with (msg base_event)\<rparr>;
                     remaining_note_ons =
                       map (\<lambda>i. note_ons ! i)
                         (filter (\<lambda>i. i \<notin> set found) [0..<length note_ons])
                 in Inr (remaining_note_ons @ [new_event] @ other_events)))
         else Inr events)"

fun replace_composite_notes :: "event_table \<Rightarrow> int set \<Rightarrow> int \<Rightarrow> py_error + event_table" where
  "replace_composite_notes [] match_notes replace_with = Inr []"
| "replace_composite_notes ((tk, events) # rest) match_notes replace_with =
     (case replace_composite_tick match_notes replace_with events of
        Inl err \<Rightarrow> Inl err
      | Inr events' \<Rightarrow>
          (case replace_composite_notes rest match_notes replace_with of
             Inl err \<Rightarrow> Inl err
           | Inr rest' \<Rightarrow> Inr ((tk, events') # rest')))"

subsection \<open>\<^verbatim>\<open>replace_single_note\<close>\<close>

text \<open>
  The body of the inner loop: an event whose message is a \<^verbatim>\<open>note_on\<close> with
  \<^verbatim>\<open>note == from_note\<close> is replaced, at its index, by
  \<^verbatim>\<open>{**event, "msg": msg.copy(note=to_note)}\<close>.
\<close>

definition replace_single_note_event :: "int \<Rightarrow> int \<Rightarrow> event \<Rightarrow> event" where
  "replace_single_note_event from_note to_note e =
     (if is_note_on (msg e) \<and> note_of (msg e) = from_note
      then e\<lparr>msg := copy_note to_note (msg e)\<rparr> else e)"

definition replace_single_note :: "event_table \<Rightarrow> int \<Rightarrow> int \<Rightarrow> event_table" where
  "replace_single_note events_by_tick from_note to_note =
     map (\<lambda>(tk, events). (tk, map (replace_single_note_event from_note to_note) events))
       events_by_tick"

subsection \<open>\<^verbatim>\<open>replace_track\<close>, \<^verbatim>\<open>replace_note_track\<close>\<close>

definition replace_track :: "event_table \<Rightarrow> int \<Rightarrow> int \<Rightarrow> event_table" where
  "replace_track events_by_tick from_track to_track =
     map (\<lambda>(tk, tick_events).
            (tk, map (\<lambda>e. if track e = from_track then e\<lparr>track := to_track\<rparr> else e) tick_events))
       events_by_tick"

definition replace_note_track :: "event_table \<Rightarrow> int list \<Rightarrow> int \<Rightarrow> event_table" where
  "replace_note_track events_by_tick notes to_track =
     map (\<lambda>(tk, tick_events).
            (tk, map (\<lambda>e. if is_note_on (msg e) \<and> note_of (msg e) \<in> set notes
                           then e\<lparr>track := to_track\<rparr> else e) tick_events))
       events_by_tick"

subsection \<open>\<^verbatim>\<open>replace_note_if_velocity\<close>, \<^verbatim>\<open>replace_velocity_if_velocity\<close>\<close>

definition replace_note_if_velocity :: "event_table \<Rightarrow> int \<Rightarrow> int \<Rightarrow> int \<Rightarrow> event_table" where
  "replace_note_if_velocity events_by_tick from_note from_vel to_note =
     map (\<lambda>(tk, events).
            (tk, map (\<lambda>e. if is_note_on (msg e) \<and> note_of (msg e) = from_note
                               \<and> velocity_of (msg e) = from_vel
                           then e\<lparr>msg := copy_velocity 100 (copy_note to_note (msg e))\<rparr>
                           else e) events))
       events_by_tick"

definition replace_velocity_if_velocity :: "event_table \<Rightarrow> int \<Rightarrow> int \<Rightarrow> event_table" where
  "replace_velocity_if_velocity events_by_tick from_vel to_vel =
     map (\<lambda>(tk, events).
            (tk, map (\<lambda>e. if is_note_on (msg e) \<and> velocity_of (msg e) = from_vel
                           then e\<lparr>msg := copy_velocity to_vel (msg e)\<rparr> else e) events))
       events_by_tick"

subsection \<open>\<^verbatim>\<open>detect_flam\<close>\<close>

text \<open>
  For one tick: every matching event is rewritten where it stands (message with
  \<^verbatim>\<open>note=to_note, velocity=100\<close>, track \<^verbatim>\<open>right_track\<close>), and for each of them a new event
  \<^verbatim>\<open>{"msg": left_msg, "track": left_track, "tick": tick}\<close> is collected in \<^verbatim>\<open>new_events\<close>,
  which is appended to the tick's list after the loop.
\<close>

definition is_flam :: "int \<Rightarrow> int \<Rightarrow> event \<Rightarrow> bool" where
  "is_flam from_note from_vel e =
     (is_note_on (msg e) \<and> note_of (msg e) = from_note \<and> velocity_of (msg e) = from_vel)"

definition detect_flam_tick ::
  "int \<Rightarrow> event list \<Rightarrow> int \<Rightarrow> int \<Rightarrow> int \<Rightarrow> int \<Rightarrow> int \<Rightarrow> event list" where
  "detect_flam_tick tk events from_note from_vel to_note left_track right_track =
     map (\<lambda>e. if is_flam from_note from_vel e
              then e\<lparr>msg := copy_velocity 100 (copy_note to_note (msg e)), track := right_track\<rparr>
              else e) events
     @ map (\<lambda>e. \<lparr>tick = tk, track = left_track,
                  msg = copy_velocity 100 (copy_note to_note (msg e))\<rparr>)
         (filter (is_flam from_note from_vel) events)"

definition detect_flam ::
  "event_table \<Rightarrow> int \<Rightarrow> int \<Rightarrow> int \<Rightarrow> int \<Rightarrow> int \<Rightarrow> event_table" where
  "detect_flam events_by_tick from_note from_vel to_note left_track right_track =
     map (\<lambda>(tk, events).
            (tk, detect_flam_tick tk events from_note from_vel to_note left_track right_track))
       events_by_tick"

subsection \<open>\<^verbatim>\<open>assign_hands_for_note\<close>\<close>

text \<open>
  \<^verbatim>\<open>note_hits\<close> holds, for each hit, the tick and a reference to the event dictionary,
  whose \<^verbatim>\<open>"track"\<close> the second loop overwrites in place. The reference is modelled by
  the place of the event in the table: the tick and the index in that tick's list.
\<close>

definition is_hit :: "int list \<Rightarrow> event \<Rightarrow> bool" where
  "is_hit notes e = (is_note_on (msg e) \<and> note_of (msg e) \<in> set notes)"

definition note_hits :: "event_table \<Rightarrow> int list \<Rightarrow> (int \<times> nat) list" where
  "note_hits events_by_tick notes =
     concat (map (\<lambda>tk. map (\<lambda>j. (tk, j))
                          (filter (\<lambda>j. is_hit notes (dd_get events_by_tick tk ! j))
                             [0..<length (dd_get events_by_tick tk)]))
               (sorted_keys events_by_tick))"

text \<open>
  The decision of the second loop for hit \<open>i\<close>: \<open>Some hand_track\<close> when the event's track
  is overwritten, \<open>None\<close> when it is left as it is.
\<close>

definition hand_for :: "(int \<times> nat) list \<Rightarrow> nat \<Rightarrow> int \<Rightarrow> int \<Rightarrow> int option" where
  "hand_for hits i left_track right_track =
     (let tk = fst (hits ! i);
          subdivision = tk mod EXPECTED_TPB;
          is_strong = (subdivision = 0 \<or> subdivision = EXPECTED_TPB div 2);
          is_weak_next = (is_strong \<and> i + 1 < length hits \<and>
                          fst (hits ! (i + 1)) - tk = EXPECTED_TPB div 4);
          hand_track = (if is_weak_next then right_track else left_track)
      in if (is_strong \<and> is_weak_next) \<or> \<not> is_strong then Some hand_track else None)"

fun set_track_at :: "event_table \<Rightarrow> int \<times> nat \<Rightarrow> int \<Rightarrow> event_table" where
  "set_track_at [] p h = []"
| "set_track_at ((k, es) # rest) p h =
     (if k = fst p then (k, es[snd p := (es ! snd p)\<lparr>track := h\<rparr>]) # rest
      else (k, es) # set_track_at rest p h)"

definition assign_step :: "(int \<times> nat) list \<Rightarrow> int \<Rightarrow> int \<Rightarrow> nat \<Rightarrow> event_table \<Rightarrow> event_table" where
  "assign_step hits left_track right_track i tbl =
     (case hand_for hits i left_track right_track of
        Some hand_track \<Rightarrow> set_track_at tbl (hits ! i) hand_track
      | None \<Rightarrow> tbl)"

definition assign_hands_for_note :: "event_table \<Rightarrow> int list \<Rightarrow> int \<Rightarrow> int \<Rightarrow> event_table" where
  "assign_hands_for_note events_by_tick notes left_track right_track =
     (let hits = note_hits events_by_tick notes
      in fold (assign_step hits left_track right_track) [0..<length hits] events_by_tick)"

text \<open>The event a hit refers to.\<close>

definition event_at :: "event_table \<Rightarrow> int \<times> nat \<Rightarrow> event" where
  "event_at events_by_tick p = dd_get events_by_tick (fst p) ! snd p"

section \<open>Step 3: writing the output\<close>

text \<open>
  \<^verbatim>\<open>write_midi\<close> up to the call of the codec's \<^verbatim>\<open>save\<close>: the result is the container
  handed to \<^verbatim>\<open>save\<close>, or the exception raised before it.
\<close>

definition track_events :: "event_table \<Rightarrow> (int \<times> event list) list" where
  "track_events events_by_tick =
     fold (\<lambda>e d. dd_append (track e) e d)
       (concat (map (dd_get events_by_tick) (sorted_keys events_by_tick))) []"

fun flat_events :: "event list \<Rightarrow> (int \<times> message) list" where
  "flat_events [] = []"
| "flat_events (e # es) =
     (if is_note_on (msg e)
      then [(tick e, msg e),
            (tick e + DEFAULT_DURATION, NoteOff (channel_of (msg e)) (note_of (msg e)) 0 0)]
      else [(tick e, msg e)]) @ flat_events es"

fun delta_times :: "int \<Rightarrow> (int \<times> message) list \<Rightarrow> message list" where
  "delta_times last_tick [] = []"
| "delta_times last_tick ((tk, m) # rest) = copy_time (tk - last_tick) m # delta_times tk rest"

definition new_track :: "event list \<Rightarrow> midi_track" where
  "new_track evs = \<lparr>messages = delta_times 0 (sort_key fst (flat_events evs))\<rparr>"

definition written_tracks :: "event_table \<Rightarrow> int \<Rightarrow> midi_track list" where
  "written_tracks events_by_tick in_track =
     (let te = track_events events_by_tick
      in map (\<lambda>track_index. new_track (dd_get te track_index))
           (filter (\<lambda>track_index. \<not> (in_track \<ge> 0 \<and> track_index \<noteq> in_track))
              (sorted_keys te)))"

text \<open>
  The assignment \<^verbatim>\<open>track.name = nm\<close> is the property setter of the codec library's track
  class (not part of this repository): it renames the first \<^verbatim>\<open>track_name\<close> message of
  the track, and when the track has none it inserts a \<^verbatim>\<open>track_name\<close> message with time
  0 at index 0.
\<close>

fun is_track_name :: "message \<Rightarrow> bool" where
  "is_track_name (TrackName x t) = True"
| "is_track_name m = False"

fun rename_first :: "string \<Rightarrow> message list \<Rightarrow> message list" where
  "rename_first nm [] = []"
| "rename_first nm (TrackName x t # ms) = TrackName nm t # ms"
| "rename_first nm (m # ms) = m # rename_first nm ms"

definition set_name :: "string \<Rightarrow> midi_track \<Rightarrow> midi_track" where
  "set_name nm tr =
     (if list_ex is_track_name (messages tr)
      then tr\<lparr>messages := rename_first nm (messages tr)\<rparr>
      else tr\<lparr>messages := TrackName nm 0 # messages tr\<rparr>)"

text \<open>
  The two assignments \<^verbatim>\<open>new_mid.tracks[0].name = 'RH'\<close> and
  \<^verbatim>\<open>new_mid.tracks[1].name = 'LH'\<close> index the list of written tracks and raise
  IndexError when it is too short.
\<close>

definition write_midi :: "event_table \<Rightarrow> int \<Rightarrow> py_error + midi_file" where
  "write_midi events_by_tick in_track =
     (let trs = written_tracks events_by_tick in_track
      in if length trs \<le> 0 then Inl IndexError
         else let trs1 = trs[0 := set_name ''RH'' (trs ! 0)]
              in if length trs1 \<le> 1 then Inl IndexError
                 else Inr \<lparr>ticks_per_beat = EXPECTED_TPB,
                           tracks = trs1[1 := set_name ''LH'' (trs1 ! 1)]\<rparr>)"

text \<open>
  The absolute tick of each message of a written track: the running sum of the delta
  times, as a reader of the file accumulates it.
\<close>

fun abs_ticks :: "int \<Rightarrow> message list \<Rightarrow> (int \<times> message) list" where
  "abs_ticks t0 [] = []"
| "abs_ticks t0 (m # ms) = (t0 + mtime m, m) # abs_ticks (t0 + mtime m) ms"

section \<open>The pipeline\<close>

definition transform :: "event_table \<Rightarrow> py_error + event_table" where
  "transform events0 =
     and_then (replace_composite_notes events0 {110, 98} 48) (\<lambda>events.
     and_then (replace_composite_notes events {111, 99} 45) (\<lambda>events.
     and_then (replace_composite_notes events {112, 100} 43) (\<lambda>events.
     let events = replace_single_note events 96 36;
         events = replace_single_note events 95 36;
         events = replace_single_note events 97 38;
         events = replace_single_note events 98 42;
         events = replace_single_note events 99 51;
         events = replace_single_note events 100 49;
         events = replace_note_if_velocity events 49 127 44;
         events = replace_note_if_velocity events 42 127 46;
         events = replace_velocity_if_velocity events 1 20;
         events = replace_note_track events [38] 5;
         events = assign_hands_for_note events [38, 42] 5 6;
         events = assign_hands_for_note events [38, 48, 45, 43] 5 6;
         events = detect_flam events 38 127 38 5 6;
         events = replace_track events 0 2;
         events = replace_track events 1 2;
         events = replace_track events 6 2
     in Inr events)))"

definition main :: "midi_file \<Rightarrow> py_error + midi_file" where
  "main mid =
     and_then (read_midi_events mid) (\<lambda>events.
     and_then (transform events) (\<lambda>events.
     write_midi events (- 1)))"

section \<open>Example inputs\<close>

definition mid1 :: midi_file where
  "mid1 = \<lparr>ticks_per_beat = 96, tracks =
      [\<lparr>messages = [NoteOn 9 38 127 0, NoteOff 9 38 0 8, NoteOn 9 110 100 16,
                    NoteOn 9 98 100 0, NoteOn 9 300 100 0]\<rparr>]\<rparr>"

definition tbl1 :: event_table where
  "tbl1 = [(0, [\<lparr>tick = 0, track = 0, msg = NoteOn 9 38 127 0\<rparr>]),
           (24, [\<lparr>tick = 24, track = 0, msg = NoteOn 9 110 100 16\<rparr>,
                 \<lparr>tick = 24, track = 0, msg = NoteOn 9 98 100 0\<rparr>,
                 \<lparr>tick = 24, track = 0, msg = NoteOn 9 300 100 0\<rparr>])]"

definition mid480 :: midi_file where
  "mid480 = \<lparr>ticks_per_beat = 480, tracks =
      [\<lparr>messages = [NoteOn 9 38 127 0, NoteOff 9 38 0 8]\<rparr>]\<rparr>"

definition tblH :: event_table where
  "tblH = [(0, [\<lparr>tick = 0, track = 0, msg = NoteOn 9 38 100 0\<rparr>]),
           (24, [\<lparr>tick = 24, track = 0, msg = NoteOn 9 38 100 24\<rparr>]),
           (96, [\<lparr>tick = 96, track = 0, msg = NoteOn 9 38 100 72\<rparr>])]"

section \<open>Ingestion and the note-off invariant\<close>

lemma no_note_off_iff:
  "no_note_off tbl \<longleftrightarrow> (\<forall>e \<in> set (all_events tbl). \<not> is_note_off (msg e))"
  by (simp add: no_note_off_def list_all_iff)

lemma all_events_Cons: "all_events ((k, es) # tbl) = es @ all_events tbl"
  by (simp add: all_events_def)

lemma all_events_Nil: "all_events [] = []"
  by (simp add: all_events_def)

lemma set_all_events_dd_append:
  "set (all_events (dd_append k e tbl)) = insert e (set (all_events tbl))"
  by (induction tbl) (auto simp: all_events_Cons all_events_Nil split: if_splits)

lemma pairs_read_track:
  "(\<lambda>e. (track e, msg e)) ` set (all_events (read_track i a ms tbl)) =
     (\<lambda>e. (track e, msg e)) ` set (all_events tbl) \<union> {(i, m) | m. m \<in> set ms \<and> \<not> is_note_off m}"
proof (induction ms arbitrary: a tbl)
  case Nil
  then show ?case by simp
next
  case (Cons m ms)
  show ?case
  proof (cases "is_note_off m")
    case True
    then show ?thesis using Cons.IH [of "a + mtime m" tbl] by (auto simp: Let_def)
  next
    case False
    then show ?thesis
      using Cons.IH [of "a + mtime m"
          "dd_append (a + mtime m) \<lparr>tick = a + mtime m, track = i, msg = m\<rparr> tbl"]
      by (auto simp: Let_def set_all_events_dd_append)
  qed
qed

lemma pairs_read_tracks:
  "(\<lambda>e. (track e, msg e)) ` set (all_events (read_tracks i trs tbl)) =
     (\<lambda>e. (track e, msg e)) ` set (all_events tbl) \<union>
     {(i + int k, m) | k m. k < length trs \<and> m \<in> set (messages (trs ! k)) \<and> \<not> is_note_off m}"
proof (induction trs arbitrary: i tbl)
  case Nil
  then show ?case by simp
next
  case (Cons tr trs)
  have split: "{(i + int k, m) | k m. k < length (tr # trs) \<and> m \<in> set (messages ((tr # trs) ! k)) \<and> \<not> is_note_off m}
     = {(i, m) | m. m \<in> set (messages tr) \<and> \<not> is_note_off m} \<union>
       {(i + 1 + int k, m) | k m. k < length trs \<and> m \<in> set (messages (trs ! k)) \<and> \<not> is_note_off m}"
    (is "?L = ?A \<union> ?B")
  proof (intro set_eqI iffI)
    fix x assume "x \<in> ?L"
    then obtain k m where x: "x = (i + int k, m)" and k: "k < length (tr # trs)"
      and m: "m \<in> set (messages ((tr # trs) ! k))" "\<not> is_note_off m" by blast
    show "x \<in> ?A \<union> ?B"
    proof (cases k)
      case 0
      with x m show ?thesis by simp
    next
      case (Suc k')
      with x k m have "x = (i + 1 + int k', m) \<and> k' < length trs \<and> m \<in> set (messages (trs ! k'))"
        by simp
      with m(2) show ?thesis by blast
    qed
  next
    fix x assume "x \<in> ?A \<union> ?B"
    then show "x \<in> ?L"
    proof
      assume "x \<in> ?A"
      then obtain m where "x = (i + int 0, m)" "m \<in> set (messages ((tr # trs) ! 0))" "\<not> is_note_off m"
        by auto
      then show ?thesis by (intro CollectI exI [of _ 0] exI [of _ m]) simp
    next
      assume "x \<in> ?B"
      then obtain k m where "x = (i + int (Suc k), m)" "Suc k < length (tr # trs)"
         "m \<in> set (messages ((tr # trs) ! Suc k))" "\<not> is_note_off m"
        by auto
      then show ?thesis by (intro CollectI exI [of _ "Suc k"] exI [of _ m]) simp
    qed
  qed
  show ?case
    unfolding split
    by (simp add: Cons.IH pairs_read_track Un_assoc)
qed

lemma no_note_off_read_track:
  "no_note_off tbl \<Longrightarrow> no_note_off (read_track i a ms tbl)"
proof -
  assume a: "no_note_off tbl"
  have "\<not> is_note_off (msg e)" if "e \<in> set (all_events (read_track i a ms tbl))" for e
  proof -
    from that have "(track e, msg e) \<in> (\<lambda>e. (track e, msg e)) ` set (all_events (read_track i a ms tbl))"
      by (rule imageI)
    then show ?thesis using a unfolding pairs_read_track no_note_off_iff by auto
  qed
  then show ?thesis by (simp add: no_note_off_iff)
qed

lemma no_note_off_read_tracks:
  "no_note_off tbl \<Longrightarrow> no_note_off (read_tracks i trs tbl)"
  by (induction trs arbitrary: i tbl) (auto simp: no_note_off_read_track)

lemma is_note_off_copy_note [simp]: "is_note_off (copy_note n m) = is_note_off m"
  by (cases m) auto

lemma is_note_off_copy_velocity [simp]: "is_note_off (copy_velocity w m) = is_note_off m"
  by (cases m) auto

lemma is_note_on_copy_note [simp]: "is_note_on (copy_note n m) = is_note_on m"
  by (cases m) auto

lemma is_note_on_copy_velocity [simp]: "is_note_on (copy_velocity w m) = is_note_on m"
  by (cases m) auto

lemma not_off_if_on: "is_note_on m \<Longrightarrow> \<not> is_note_off m"
  by (cases m) auto

lemma no_note_off_tickwise:
  assumes g: "\<And>tk es. \<forall>e \<in> set es. \<not> is_note_off (msg e) \<Longrightarrow>
                \<forall>e \<in> set (g tk es). \<not> is_note_off (msg e)"
    and n: "no_note_off tbl"
  shows "no_note_off (map (\<lambda>(tk, es). (tk, g tk es)) tbl)"
  using n
proof (induction tbl)
  case Nil
  then show ?case by (simp add: no_note_off_iff all_events_Nil)
next
  case (Cons a tbl)
  obtain k es where a: "a = (k, es)" by (cases a)
  from Cons.prems have 1: "\<forall>e \<in> set es. \<not> is_note_off (msg e)" and 2: "no_note_off tbl"
    by (auto simp: a no_note_off_iff all_events_Cons)
  from g [OF 1] Cons.IH [OF 2] show ?case
    by (auto simp: a no_note_off_iff all_events_Cons)
qed

lemma no_note_off_eventwise:
  assumes f: "\<And>e. \<not> is_note_off (msg e) \<Longrightarrow> \<not> is_note_off (msg (f e))"
    and n: "no_note_off tbl"
  shows "no_note_off (map (\<lambda>(tk, es). (tk, map f es)) tbl)"
  by (rule no_note_off_tickwise [where g = "\<lambda>tk es. map f es", OF _ n]) (auto simp: f)

lemma no_note_off_replace_single_note:
  "no_note_off tbl \<Longrightarrow> no_note_off (replace_single_note tbl f t)"
  unfolding replace_single_note_def
  by (rule no_note_off_eventwise) (auto simp: replace_single_note_event_def)

lemma no_note_off_replace_track:
  "no_note_off tbl \<Longrightarrow> no_note_off (replace_track tbl a b)"
  unfolding replace_track_def by (rule no_note_off_eventwise) auto

lemma no_note_off_replace_note_track:
  "no_note_off tbl \<Longrightarrow> no_note_off (replace_note_track tbl ns b)"
  unfolding replace_note_track_def by (rule no_note_off_eventwise) auto

lemma no_note_off_replace_note_if_velocity:
  "no_note_off tbl \<Longrightarrow> no_note_off (replace_note_if_velocity tbl f v t)"
  unfolding replace_note_if_velocity_def by (rule no_note_off_eventwise) auto

lemma no_note_off_replace_velocity_if_velocity:
  "no_note_off tbl \<Longrightarrow> no_note_off (replace_velocity_if_velocity tbl v w)"
  unfolding replace_velocity_if_velocity_def by (rule no_note_off_eventwise) auto

lemma no_note_off_detect_flam:
  "no_note_off tbl \<Longrightarrow> no_note_off (detect_flam tbl f v t l r)"
  unfolding detect_flam_def
  by (rule no_note_off_tickwise [where g = "\<lambda>tk es. detect_flam_tick tk es f v t l r"])
    (auto simp: detect_flam_tick_def)

lemma min_from_in: "min_from b es \<in> insert b (set es)"
proof (induction es arbitrary: b)
  case Nil
  then show ?case by simp
next
  case (Cons a es)
  show ?case
    using Cons.IH [of "if note_of (msg a) < note_of (msg b) then a else b"]
    by (auto split: if_splits)
qed

lemma min_by_note_in: "min_by_note es = Some b \<Longrightarrow> b \<in> set es"
  using min_from_in by (cases es) auto

lemma filter_nth_mem:
  "i < length (filter P xs) \<Longrightarrow> filter P xs ! i \<in> set xs \<and> P (filter P xs ! i)"
  using nth_mem [of i "filter P xs"] by simp

lemma replace_composite_tick_cases:
  assumes "replace_composite_tick ms r es = Inr es'"
  shows "es' = es \<or>
    (\<exists>base rem. base \<in> set es \<and> is_note_on (msg base) \<and> set rem \<subseteq> set es \<and>
       es' = rem @ [base\<lparr>msg := copy_note r (msg base)\<rparr>] @ filter (\<lambda>e. \<not> is_note_on (msg e)) es)"
proof (cases "length (found_indices ms (filter (\<lambda>e. is_note_on (msg e)) es)) = card ms")
  case False
  with assms show ?thesis by (simp add: replace_composite_tick_def Let_def)
next
  case True
  let ?ons = "filter (\<lambda>e. is_note_on (msg e)) es"
  let ?found = "found_indices ms ?ons"
  from assms True obtain base where b: "min_by_note (map (\<lambda>i. ?ons ! i) ?found) = Some base"
    and es': "es' = map (\<lambda>i. ?ons ! i) (filter (\<lambda>i. i \<notin> set ?found) [0..<length ?ons])
        @ [base\<lparr>msg := copy_note r (msg base)\<rparr>] @ filter (\<lambda>e. \<not> is_note_on (msg e)) es"
    by (auto simp: replace_composite_tick_def Let_def split: option.splits)
  from min_by_note_in [OF b] obtain i where "i < length ?ons" "base = ?ons ! i"
    by (auto simp: found_indices_def)
  then have "base \<in> set es \<and> is_note_on (msg base)"
    using filter_nth_mem [of i "\<lambda>e. is_note_on (msg e)" es] by simp
  moreover have "set (map (\<lambda>i. ?ons ! i) (filter (\<lambda>i. i \<notin> set ?found) [0..<length ?ons])) \<subseteq> set es"
  proof
    fix x assume "x \<in> set (map (\<lambda>i. ?ons ! i) (filter (\<lambda>i. i \<notin> set ?found) [0..<length ?ons]))"
    then obtain i where "i < length ?ons" "x = ?ons ! i" by auto
    then show "x \<in> set es"
      using filter_nth_mem [of i "\<lambda>e. is_note_on (msg e)" es] by simp
  qed
  ultimately show ?thesis using es' by blast
qed

lemma no_note_off_replace_composite_notes:
  "replace_composite_notes tbl ms r = Inr tbl' \<Longrightarrow> no_note_off tbl \<Longrightarrow> no_note_off tbl'"
proof (induction tbl arbitrary: tbl')
  case Nil
  then show ?case by simp
next
  case (Cons a tbl)
  obtain k es where a: "a = (k, es)" by (cases a)
  from Cons.prems(1) obtain es' rest' where
    t: "replace_composite_tick ms r es = Inr es'"
    and r: "replace_composite_notes tbl ms r = Inr rest'"
    and tbl': "tbl' = (k, es') # rest'"
    by (auto simp: a split: sum.splits)
  from Cons.prems(2) have 1: "\<forall>e \<in> set es. \<not> is_note_off (msg e)" and 2: "no_note_off tbl"
    by (auto simp: a no_note_off_iff all_events_Cons)
  from replace_composite_tick_cases [OF t] have "\<forall>e \<in> set es'. \<not> is_note_off (msg e)"
  proof
    assume "es' = es"
    with 1 show ?thesis by simp
  next
    assume "\<exists>base rem. base \<in> set es \<and> is_note_on (msg base) \<and> set rem \<subseteq> set es \<and>
       es' = rem @ [base\<lparr>msg := copy_note r (msg base)\<rparr>] @ filter (\<lambda>e. \<not> is_note_on (msg e)) es"
    then obtain base rem where b: "base \<in> set es" "set rem \<subseteq> set es"
      and es': "es' = rem @ [base\<lparr>msg := copy_note r (msg base)\<rparr>] @ filter (\<lambda>e. \<not> is_note_on (msg e)) es"
      by blast
    from b 1 have "\<forall>e \<in> set rem. \<not> is_note_off (msg e)" "\<not> is_note_off (msg base)"
      by blast+
    with 1 show ?thesis by (auto simp: es')
  qed
  with Cons.IH [OF r 2] show ?case
    by (auto simp: tbl' no_note_off_iff all_events_Cons)
qed

lemma msgs_set_track_at:
  "map msg (all_events (set_track_at tbl p h)) = map msg (all_events tbl)"
proof (induction tbl)
  case Nil
  then show ?case by simp
next
  case (Cons a tbl)
  obtain k es where a: "a = (k, es)" by (cases a)
  have "map msg (es[snd p := (es ! snd p)\<lparr>track := h\<rparr>]) = map msg es"
  proof (cases "snd p < length es")
    case True
    then show ?thesis by (simp add: map_update list_update_same_conv)
  next
    case False
    then show ?thesis by (simp add: list_update_beyond)
  qed
  with Cons.IH show ?case by (simp add: a all_events_Cons)
qed

lemma msgs_assign_hands_for_note:
  "map msg (all_events (assign_hands_for_note tbl ns l r)) = map msg (all_events tbl)"
proof -
  have "map msg (all_events (fold (assign_step hits l r) is tbl)) = map msg (all_events tbl)"
    for hits "is"
    by (induction "is" arbitrary: tbl)
      (auto simp: assign_step_def msgs_set_track_at split: option.splits)
  then show ?thesis by (simp add: assign_hands_for_note_def Let_def)
qed

lemma no_note_off_msgs:
  "no_note_off tbl \<longleftrightarrow> list_all (\<lambda>m. \<not> is_note_off m) (map msg (all_events tbl))"
  by (simp add: no_note_off_def list_all_iff)

lemma no_note_off_assign_hands_for_note:
  "no_note_off tbl \<Longrightarrow> no_note_off (assign_hands_for_note tbl ns l r)"
  by (simp add: no_note_off_msgs msgs_assign_hands_for_note del: list.pred_map)

lemma no_note_off_read_midi_events:
  "read_midi_events mid = Inr tbl \<Longrightarrow> no_note_off tbl"
proof -
  assume "read_midi_events mid = Inr tbl"
  then have tbl: "tbl = read_tracks 0 (tracks mid) []"
    by (auto simp: read_midi_events_def split: if_splits)
  have "no_note_off []" by (simp add: no_note_off_def all_events_Nil)
  then show ?thesis unfolding tbl by (rule no_note_off_read_tracks)
qed

text \<open>
  C7. Right after ingestion the table holds no event whose message is a \<^verbatim>\<open>note_off\<close>,
  and every rewrite rule keeps it so: applied to a table without \<^verbatim>\<open>note_off\<close> events,
  each of the eight rules returns a table without \<^verbatim>\<open>note_off\<close> events.
\<close>

theorem no_note_off_invariant:
  "(\<forall>tbl0. read_midi_events mid = Inr tbl0 \<longrightarrow> no_note_off tbl0) \<and>
   (no_note_off tbl \<longrightarrow>
      (\<forall>tbl'. replace_composite_notes tbl match_notes replace_with = Inr tbl' \<longrightarrow>
         no_note_off tbl') \<and>
      no_note_off (replace_single_note tbl from_note to_note) \<and>
      no_note_off (replace_note_if_velocity tbl from_note from_vel to_note) \<and>
      no_note_off (replace_velocity_if_velocity tbl from_vel to_vel) \<and>
      no_note_off (replace_note_track tbl notes to_track) \<and>
      no_note_off (assign_hands_for_note tbl notes left_track right_track) \<and>
      no_note_off (detect_flam tbl from_note from_vel to_note left_track right_track) \<and>
      no_note_off (replace_track tbl from_track to_track))"
proof (intro conjI allI impI)
  fix tbl0 assume "read_midi_events mid = Inr tbl0"
  then show "no_note_off tbl0" by (rule no_note_off_read_midi_events)
next
  fix tbl' assume "no_note_off tbl"
    and "replace_composite_notes tbl match_notes replace_with = Inr tbl'"
  then show "no_note_off tbl'" by (rule no_note_off_replace_composite_notes [rotated])
qed (simp_all add: no_note_off_replace_single_note
      no_note_off_replace_note_if_velocity no_note_off_replace_velocity_if_velocity
      no_note_off_replace_note_track no_note_off_assign_hands_for_note
      no_note_off_detect_flam no_note_off_replace_track)

theorem no_note_off_invariant_witness:
  "read_midi_events mid1 = Inr tbl1 \<and> no_note_off tbl1 \<and>
   replace_composite_notes tbl1 {110, 98} 48 =
     Inr [(0, [\<lparr>tick = 0, track = 0, msg = NoteOn 9 38 127 0\<rparr>]),
          (24, [\<lparr>tick = 24, track = 0, msg = NoteOn 9 300 100 0\<rparr>,
                \<lparr>tick = 24, track = 0, msg = NoteOn 9 48 100 0\<rparr>])] \<and>
   no_note_off [(0, [\<lparr>tick = 0, track = 0, msg = NoteOn 9 38 127 0\<rparr>]),
          (24, [\<lparr>tick = 24, track = 0, msg = NoteOn 9 300 100 0\<rparr>,
                \<lparr>tick = 24, track = 0, msg = NoteOn 9 48 100 0\<rparr>])] \<and>
   no_note_off (detect_flam tbl1 38 127 38 5 6)"
proof -
  note inv = no_note_off_invariant [where mid = mid1 and tbl = tbl1
      and match_notes = "{110, 98}" and replace_with = 48 and from_note = 38
      and from_vel = 127 and to_note = 38 and left_track = 5 and right_track = 6]
  have r: "read_midi_events mid1 = Inr tbl1"
    by (simp add: read_midi_events_def mid1_def tbl1_def EXPECTED_TPB_def)
  have c: "replace_composite_notes tbl1 {110, 98} 48 =
     Inr [(0, [\<lparr>tick = 0, track = 0, msg = NoteOn 9 38 127 0\<rparr>]),
          (24, [\<lparr>tick = 24, track = 0, msg = NoteOn 9 300 100 0\<rparr>,
                \<lparr>tick = 24, track = 0, msg = NoteOn 9 48 100 0\<rparr>])]"
    by (simp add: tbl1_def replace_composite_tick_def found_indices_def)
  from inv r have n: "no_note_off tbl1" by blast
  from inv n c show ?thesis using r by blast
qed

text \<open>
  C6. Ingestion fails if and only if the container's ticks-per-beat differs from
  \<open>EXPECTED_TPB\<close>, which is 96. When it differs, \<^verbatim>\<open>read_midi_events\<close> raises its ValueError
  and the whole run ends with that error: no rule is applied and no container is written.
  When it is equal, ingestion returns a table and nothing else is checked: the pairs
  (track index, message) of the table are exactly the messages of the input tracks that are
  not \<^verbatim>\<open>note_off\<close>, whatever their note numbers.
\<close>

theorem read_midi_events_resolution:
  "((\<exists>err. read_midi_events mid = Inl err) \<longleftrightarrow> ticks_per_beat mid \<noteq> EXPECTED_TPB) \<and>
   EXPECTED_TPB = 96 \<and>
   (ticks_per_beat mid \<noteq> EXPECTED_TPB \<longrightarrow>
      read_midi_events mid = Inl (TpbValueError (ticks_per_beat mid)) \<and>
      main mid = Inl (TpbValueError (ticks_per_beat mid))) \<and>
   (ticks_per_beat mid = EXPECTED_TPB \<longrightarrow>
      (\<exists>tbl. read_midi_events mid = Inr tbl \<and>
         (\<lambda>e. (track e, msg e)) ` set (all_events tbl) =
           {(int k, m) | k m. k < length (tracks mid) \<and>
               m \<in> set (messages (tracks mid ! k)) \<and> \<not> is_note_off m}))"
proof (intro conjI impI)
  show "(\<exists>err. read_midi_events mid = Inl err) \<longleftrightarrow> ticks_per_beat mid \<noteq> EXPECTED_TPB"
    by (simp add: read_midi_events_def)
  show "EXPECTED_TPB = 96" by (simp add: EXPECTED_TPB_def)
next
  assume "ticks_per_beat mid \<noteq> EXPECTED_TPB"
  then show "read_midi_events mid = Inl (TpbValueError (ticks_per_beat mid))"
    by (simp add: read_midi_events_def)
  then show "main mid = Inl (TpbValueError (ticks_per_beat mid))"
    by (simp add: main_def and_then_def)
next
  assume "ticks_per_beat mid = EXPECTED_TPB"
  then have "read_midi_events mid = Inr (read_tracks 0 (tracks mid) [])"
    by (simp add: read_midi_events_def)
  moreover have "(\<lambda>e. (track e, msg e)) ` set (all_events (read_tracks 0 (tracks mid) [])) =
      {(int k, m) | k m. k < length (tracks mid) \<and>
               m \<in> set (messages (tracks mid ! k)) \<and> \<not> is_note_off m}"
    by (simp add: pairs_read_tracks all_events_Nil)
  ultimately show "\<exists>tbl. read_midi_events mid = Inr tbl \<and>
         (\<lambda>e. (track e, msg e)) ` set (all_events tbl) =
           {(int k, m) | k m. k < length (tracks mid) \<and>
               m \<in> set (messages (tracks mid ! k)) \<and> \<not> is_note_off m}"
    by blast
qed

theorem read_midi_events_resolution_witness:
  "ticks_per_beat mid480 \<noteq> EXPECTED_TPB \<and>
   read_midi_events mid480 = Inl (TpbValueError 480) \<and>
   main mid480 = Inl (TpbValueError 480) \<and>
   ticks_per_beat mid1 = EXPECTED_TPB \<and>
   (\<exists>tbl. read_midi_events mid1 = Inr tbl \<and>
      (0, NoteOn 9 300 100 0) \<in> (\<lambda>e. (track e, msg e)) ` set (all_events tbl))"
proof -
  have a: "ticks_per_beat mid480 \<noteq> EXPECTED_TPB"
    by (simp add: mid480_def EXPECTED_TPB_def)
  have b: "ticks_per_beat mid1 = EXPECTED_TPB"
    by (simp add: mid1_def EXPECTED_TPB_def)
  have t: "ticks_per_beat mid480 = 480" by (simp add: mid480_def)
  from read_midi_events_resolution [of mid480] a t
  have 1: "read_midi_events mid480 = Inl (TpbValueError 480) \<and>
      main mid480 = Inl (TpbValueError 480)" by simp
  from read_midi_events_resolution [of mid1] b obtain tbl
    where r: "read_midi_events mid1 = Inr tbl"
      and s: "(\<lambda>e. (track e, msg e)) ` set (all_events tbl) =
           {(int k, m) | k m. k < length (tracks mid1) \<and>
               m \<in> set (messages (tracks mid1 ! k)) \<and> \<not> is_note_off m}"
    by blast
  have "(int 0, NoteOn 9 300 100 0) \<in> {(int k, m) | k m. k < length (tracks mid1) \<and>
               m \<in> set (messages (tracks mid1 ! k)) \<and> \<not> is_note_off m}"
    by (intro CollectI exI [of _ 0] exI [of _ "NoteOn 9 300 100 0"]) (simp add: mid1_def)
  with s have "(0, NoteOn 9 300 100 0) \<in> (\<lambda>e. (track e, msg e)) ` set (all_events tbl)"
    by simp
  with a b 1 r show ?thesis by blast
qed

section \<open>Composite-note replacement\<close>

text \<open>
  C1. The rule compares the number of note-ons of the tick whose note is in the match set
  with the size of the match set; it does not check that every member is present. With
  the match set \<open>{110, 98}\<close>, a tick holding two note-ons 110 (one per input track) and
  no 98 is substituted: both events are removed and one note-on 48 is inserted. And a
  tick holding 110, 98 and a second 98 has every member present and is left unchanged.
\<close>

theorem replace_composite_notes_counts_events:
  "replace_composite_notes
     [(0, [\<lparr>tick = 0, track = 0, msg = NoteOn 9 110 100 0\<rparr>,
           \<lparr>tick = 0, track = 1, msg = NoteOn 9 110 90 0\<rparr>])] {110, 98} 48 =
   Inr [(0, [\<lparr>tick = 0, track = 0, msg = NoteOn 9 48 100 0\<rparr>])] \<and>
   replace_composite_notes
     [(0, [\<lparr>tick = 0, track = 0, msg = NoteOn 9 110 100 0\<rparr>,
           \<lparr>tick = 0, track = 0, msg = NoteOn 9 98 100 0\<rparr>,
           \<lparr>tick = 0, track = 1, msg = NoteOn 9 98 90 0\<rparr>])] {110, 98} 48 =
   Inr [(0, [\<lparr>tick = 0, track = 0, msg = NoteOn 9 110 100 0\<rparr>,
           \<lparr>tick = 0, track = 0, msg = NoteOn 9 98 100 0\<rparr>,
           \<lparr>tick = 0, track = 1, msg = NoteOn 9 98 90 0\<rparr>])]"
  by (simp add: replace_composite_tick_def found_indices_def)

section \<open>Writing a table with fewer than two tracks\<close>

text \<open>
  C3. On a table without events no track is written, and \<^verbatim>\<open>write_midi\<close> then fails with
  IndexError at \<^verbatim>\<open>new_mid.tracks[0].name = 'RH'\<close>, before the container is saved; so does
  the whole run on a container without tracks.
\<close>

theorem write_midi_no_tracks:
  "write_midi [] (- 1) = Inl IndexError \<and>
   main \<lparr>ticks_per_beat = 96, tracks = []\<rparr> = Inl IndexError"
proof -
  have w: "write_midi [] (- 1) = Inl IndexError"
    by (simp add: write_midi_def written_tracks_def track_events_def sorted_keys_def)
  have r: "read_midi_events \<lparr>ticks_per_beat = 96, tracks = []\<rparr> = Inr []"
    by (simp add: read_midi_events_def EXPECTED_TPB_def)
  have a: "assign_hands_for_note [] ns l r = []" for ns l r
    by (simp add: assign_hands_for_note_def note_hits_def sorted_keys_def)
  have t: "transform [] = Inr []"
    by (simp add: transform_def and_then_def Let_def replace_single_note_def
        replace_note_if_velocity_def replace_velocity_if_velocity_def replace_note_track_def
        a detect_flam_def replace_track_def)
  from w r t show ?thesis by (simp add: main_def and_then_def)
qed

section \<open>Properties of the single-note remap\<close>

lemma replace_single_note_keys:
  "map fst (replace_single_note tbl f t) = map fst tbl"
  by (induction tbl) (auto simp: replace_single_note_def)

lemma replace_single_note_nth:
  "i < length tbl \<Longrightarrow>
     replace_single_note tbl f t ! i =
       (fst (tbl ! i), map (replace_single_note_event f t) (snd (tbl ! i)))"
  by (simp add: replace_single_note_def case_prod_unfold)

lemma replace_single_note_event_idem:
  "replace_single_note_event f t (replace_single_note_event f t e) =
     replace_single_note_event f t e"
  by (cases "msg e") (auto simp: replace_single_note_event_def)

lemma replace_single_note_idem:
  "replace_single_note (replace_single_note tbl f t) f t = replace_single_note tbl f t"
  by (induction tbl) (auto simp: replace_single_note_def replace_single_note_event_idem)

lemma all_events_replace_single_note:
  "all_events (replace_single_note tbl f t) =
     map (replace_single_note_event f t) (all_events tbl)"
  by (induction tbl) (auto simp: replace_single_note_def all_events_def)

text \<open>
  C8. The unconditional single-note remap is total. The table keeps its ticks and the
  length of every tick's list; at every position, a note-on with \<open>note = from_note\<close>
  becomes a note-on with \<open>note = to_note\<close> and the same channel, velocity, time, track and
  tick, and every other event (another note number, or not a note-on) is identical to its
  input.
\<close>

theorem replace_single_note_total:
  "map fst (replace_single_note tbl from_note to_note) = map fst tbl \<and>
   (\<forall>i j. i < length tbl \<and> j < length (snd (tbl ! i)) \<longrightarrow>
      length (snd (replace_single_note tbl from_note to_note ! i)) = length (snd (tbl ! i)) \<and>
      (\<forall>c v d. msg (snd (tbl ! i) ! j) = NoteOn c from_note v d \<longrightarrow>
         snd (replace_single_note tbl from_note to_note ! i) ! j =
           (snd (tbl ! i) ! j)\<lparr>msg := NoteOn c to_note v d\<rparr>) \<and>
      ((\<forall>c v d. msg (snd (tbl ! i) ! j) \<noteq> NoteOn c from_note v d) \<longrightarrow>
         snd (replace_single_note tbl from_note to_note ! i) ! j = snd (tbl ! i) ! j))"
proof (intro conjI allI impI)
  show "map fst (replace_single_note tbl from_note to_note) = map fst tbl"
    by (rule replace_single_note_keys)
next
  fix i j
  assume b: "i < length tbl \<and> j < length (snd (tbl ! i))"
  then show "length (snd (replace_single_note tbl from_note to_note ! i))
      = length (snd (tbl ! i))"
    by (simp add: replace_single_note_nth)
next
  fix i j c v d
  assume b: "i < length tbl \<and> j < length (snd (tbl ! i))"
    and m: "msg (snd (tbl ! i) ! j) = NoteOn c from_note v d"
  from b m show "snd (replace_single_note tbl from_note to_note ! i) ! j =
      (snd (tbl ! i) ! j)\<lparr>msg := NoteOn c to_note v d\<rparr>"
    by (simp add: replace_single_note_nth replace_single_note_event_def)
next
  fix i j
  assume b: "i < length tbl \<and> j < length (snd (tbl ! i))"
    and m: "\<forall>c v d. msg (snd (tbl ! i) ! j) \<noteq> NoteOn c from_note v d"
  from b m show "snd (replace_single_note tbl from_note to_note ! i) ! j = snd (tbl ! i) ! j"
    by (cases "msg (snd (tbl ! i) ! j)")
      (auto simp: replace_single_note_nth replace_single_note_event_def)
qed

theorem replace_single_note_total_witness:
  "snd (replace_single_note
          [(0, [\<lparr>tick = 0, track = 1, msg = NoteOn 9 96 127 0\<rparr>,
                \<lparr>tick = 0, track = 1, msg = NoteOn 9 97 80 0\<rparr>])] 96 36 ! 0) ! 0 =
     \<lparr>tick = 0, track = 1, msg = NoteOn 9 36 127 0\<rparr> \<and>
   snd (replace_single_note
          [(0, [\<lparr>tick = 0, track = 1, msg = NoteOn 9 96 127 0\<rparr>,
                \<lparr>tick = 0, track = 1, msg = NoteOn 9 97 80 0\<rparr>])] 96 36 ! 0) ! 1 =
     \<lparr>tick = 0, track = 1, msg = NoteOn 9 97 80 0\<rparr>"
proof -
  let ?tbl = "[(0::int, [\<lparr>tick = 0, track = 1, msg = NoteOn 9 96 127 0\<rparr>,
                \<lparr>tick = 0, track = 1, msg = NoteOn 9 97 80 0\<rparr>])]"
  note t = replace_single_note_total [of ?tbl 96 36, THEN conjunct2, rule_format]
  have a: "snd (replace_single_note ?tbl 96 36 ! 0) ! 0 =
      (snd (?tbl ! 0) ! 0)\<lparr>msg := NoteOn 9 36 127 0\<rparr>"
    by (rule t [of 0 0, THEN conjunct2, THEN conjunct1, rule_format]) simp_all
  have b: "snd (replace_single_note ?tbl 96 36 ! 0) ! 1 = snd (?tbl ! 0) ! 1"
    by (rule t [of 0 1, THEN conjunct2, THEN conjunct2, rule_format]) simp_all
  from a b show ?thesis by simp
qed

text \<open>
  C9. Note renumbering is not self-inverse: there is a table holding a note-on with the
  source note 96 for which applying the remap 96 to 36 twice does not give the table
  back.
\<close>

theorem replace_single_note_not_self_inverse:
  "\<exists>tbl c v d. NoteOn c 96 v d \<in> msg ` set (all_events tbl) \<and>
     replace_single_note (replace_single_note tbl 96 36) 96 36 \<noteq> tbl"
proof (intro exI conjI)
  let ?tbl = "[(0::int, [\<lparr>tick = 0, track = 0, msg = NoteOn 9 96 100 0\<rparr>])]"
  show "NoteOn 9 96 100 0 \<in> msg ` set (all_events ?tbl)"
    by (simp add: all_events_def)
  show "replace_single_note (replace_single_note ?tbl 96 36) 96 36 \<noteq> ?tbl"
    by (simp add: replace_single_note_def replace_single_note_event_def)
qed

text \<open>
  C10. The unconditional single-note remap is idempotent: when \<open>from_note \<noteq> to_note\<close>,
  after one application no note-on event carries \<open>from_note\<close>, and a second application
  gives exactly the table of the first.
\<close>

theorem replace_single_note_idempotent:
  assumes "from_note \<noteq> to_note"
  shows "replace_single_note (replace_single_note tbl from_note to_note) from_note to_note =
           replace_single_note tbl from_note to_note \<and>
         (\<forall>c v d. NoteOn c from_note v d \<notin>
            msg ` set (all_events (replace_single_note tbl from_note to_note)))"
proof (intro conjI allI)
  show "replace_single_note (replace_single_note tbl from_note to_note) from_note to_note =
      replace_single_note tbl from_note to_note"
    by (rule replace_single_note_idem)
next
  fix c v d
  have "msg (replace_single_note_event from_note to_note e) \<noteq> NoteOn c from_note v d" for e
    using assms by (cases "msg e") (auto simp: replace_single_note_event_def)
  note ne = this
  show "NoteOn c from_note v d \<notin>
      msg ` set (all_events (replace_single_note tbl from_note to_note))"
  proof
    assume "NoteOn c from_note v d \<in>
      msg ` set (all_events (replace_single_note tbl from_note to_note))"
    then obtain e where
      "msg (replace_single_note_event from_note to_note e) = NoteOn c from_note v d"
      by (auto simp: all_events_replace_single_note)
    with ne show False by blast
  qed
qed

theorem replace_single_note_idempotent_witness:
  "(96::int) \<noteq> 36 \<and>
   replace_single_note (replace_single_note
       [(0, [\<lparr>tick = 0, track = 0, msg = NoteOn 9 96 100 0\<rparr>])] 96 36) 96 36 =
     [(0, [\<lparr>tick = 0, track = 0, msg = NoteOn 9 36 100 0\<rparr>])] \<and>
   NoteOn 9 96 100 0 \<notin> msg ` set (all_events (replace_single_note
       [(0, [\<lparr>tick = 0, track = 0, msg = NoteOn 9 96 100 0\<rparr>])] 96 36))"
proof -
  have h: "(96::int) \<noteq> 36" by simp
  have e: "replace_single_note [(0, [\<lparr>tick = 0, track = 0, msg = NoteOn 9 96 100 0\<rparr>])] 96 36
      = [(0, [\<lparr>tick = 0, track = 0, msg = NoteOn 9 36 100 0\<rparr>])]"
    by (simp add: replace_single_note_def replace_single_note_event_def)
  from replace_single_note_idempotent [OF h,
      of "[(0, [\<lparr>tick = 0, track = 0, msg = NoteOn 9 96 100 0\<rparr>])]"]
  show ?thesis using h e by simp
qed

section \<open>Flam detection\<close>

lemma filter_nth_take:
  assumes "j < length xs" and "P (xs ! j)"
  shows "length (filter P (take j xs)) < length (filter P xs) \<and>
         filter P xs ! length (filter P (take j xs)) = xs ! j"
proof -
  from assms(1) have "xs = take j xs @ xs ! j # drop (Suc j) xs"
    by (rule id_take_nth_drop)
  then have "filter P xs = filter P (take j xs) @ xs ! j # filter P (drop (Suc j) xs)"
    using assms(2) by (metis filter.simps(2) filter_append)
  then show ?thesis by (simp add: nth_append)
qed

lemma is_flam_iff: "is_flam fn fv e \<longleftrightarrow> (\<exists>c d. msg e = NoteOn c fn fv d)"
  by (cases "msg e") (auto simp: is_flam_def)

lemma detect_flam_nth:
  "i < length tbl \<Longrightarrow> tbl ! i = (tk, es) \<Longrightarrow>
     detect_flam tbl fn fv tn l r ! i = (tk, detect_flam_tick tk es fn fv tn l r)"
  by (simp add: detect_flam_def)

text \<open>
  C4. At a tick \<open>tk\<close> with list \<open>es\<close>, the flam rule returns a list that is longer by the
  number of events matching the rule's note and velocity. A matching note-on is
  rewritten where it stands: its message gets the output note and velocity 100, its track
  becomes \<open>right_track\<close> (the track of the rewritten original, the claim's off-hand
  track). Its duplicate stands after the old events, in the order of the matches, with
  the same message, the tick of the table key and the track \<open>left_track\<close> (the claim's
  dominant-hand track); as an event stored under \<open>tk\<close> carries the tick \<open>tk\<close>, the
  duplicate is the rewritten original with only the track changed. An event that does not
  match both conditions is unchanged.
\<close>

theorem detect_flam_expands:
  assumes "i < length tbl" and "tbl ! i = (tk, es)"
  shows "length (detect_flam tbl from_note from_vel to_note left_track right_track) = length tbl \<and>
    (\<exists>es'. detect_flam tbl from_note from_vel to_note left_track right_track ! i = (tk, es') \<and>
       length es' = length es + length (filter (is_flam from_note from_vel) es) \<and>
       (\<forall>j<length es.
          (\<forall>c d. msg (es ! j) = NoteOn c from_note from_vel d \<longrightarrow>
             es' ! j = (es ! j)\<lparr>msg := NoteOn c to_note 100 d, track := right_track\<rparr> \<and>
             es' ! (length es + length (filter (is_flam from_note from_vel) (take j es))) =
               \<lparr>tick = tk, track = left_track, msg = NoteOn c to_note 100 d\<rparr> \<and>
             (tick (es ! j) = tk \<longrightarrow>
                es' ! (length es + length (filter (is_flam from_note from_vel) (take j es))) =
                  (es' ! j)\<lparr>track := left_track\<rparr>)) \<and>
          ((\<forall>c d. msg (es ! j) \<noteq> NoteOn c from_note from_vel d) \<longrightarrow> es' ! j = es ! j)))"
proof (intro conjI exI allI impI)
  let ?P = "is_flam from_note from_vel"
  let ?es' = "detect_flam_tick tk es from_note from_vel to_note left_track right_track"
  show "length (detect_flam tbl from_note from_vel to_note left_track right_track) = length tbl"
    by (simp add: detect_flam_def)
  show "detect_flam tbl from_note from_vel to_note left_track right_track ! i = (tk, ?es')"
    using assms by (rule detect_flam_nth)
  show "length ?es' = length es + length (filter ?P es)"
    by (simp add: detect_flam_tick_def)
  fix j assume j: "j < length es"
  {
    fix c d assume m: "msg (es ! j) = NoteOn c from_note from_vel d"
    then have P: "?P (es ! j)" by (auto simp: is_flam_iff)
    from j P m show a: "?es' ! j = (es ! j)\<lparr>msg := NoteOn c to_note 100 d, track := right_track\<rparr>"
      by (simp add: detect_flam_tick_def nth_append)
    from filter_nth_take [OF j, of ?P] P
    have k: "length (filter ?P (take j es)) < length (filter ?P es)"
      and e: "filter ?P es ! length (filter ?P (take j es)) = es ! j" by simp_all
    from k e m show b: "?es' ! (length es + length (filter ?P (take j es))) =
        \<lparr>tick = tk, track = left_track, msg = NoteOn c to_note 100 d\<rparr>"
      by (simp add: detect_flam_tick_def nth_append)
    assume "tick (es ! j) = tk"
    with a b show "?es' ! (length es + length (filter ?P (take j es))) =
        (?es' ! j)\<lparr>track := left_track\<rparr>"
      by simp
  }
  assume "\<forall>c d. msg (es ! j) \<noteq> NoteOn c from_note from_vel d"
  then have "\<not> ?P (es ! j)" by (simp add: is_flam_iff)
  with j show "?es' ! j = es ! j"
    by (simp add: detect_flam_tick_def nth_append)
qed

theorem detect_flam_expands_witness:
  "detect_flam [(0, [\<lparr>tick = 0, track = 5, msg = NoteOn 9 38 127 3\<rparr>,
                     \<lparr>tick = 0, track = 1, msg = NoteOn 9 38 90 0\<rparr>])] 38 127 38 5 6 ! 0 =
     (0, [\<lparr>tick = 0, track = 6, msg = NoteOn 9 38 100 3\<rparr>,
          \<lparr>tick = 0, track = 1, msg = NoteOn 9 38 90 0\<rparr>,
          \<lparr>tick = 0, track = 5, msg = NoteOn 9 38 100 3\<rparr>])"
proof -
  let ?es = "[\<lparr>tick = 0, track = 5, msg = NoteOn 9 38 127 3\<rparr>,
              \<lparr>tick = 0, track = 1, msg = NoteOn 9 38 90 0\<rparr>]"
  let ?tbl = "[(0::int, ?es)]"
  have h: "0 < length ?tbl" "?tbl ! 0 = (0, ?es)" by simp_all
  from detect_flam_expands [OF h, of 38 127 38 5 6]
  obtain es' where d: "detect_flam ?tbl 38 127 38 5 6 ! 0 = (0, es')"
    and len: "length es' = length ?es + length (filter (is_flam 38 127) ?es)"
    and ev: "\<forall>j<length ?es.
          (\<forall>c d. msg (?es ! j) = NoteOn c 38 127 d \<longrightarrow>
             es' ! j = (?es ! j)\<lparr>msg := NoteOn c 38 100 d, track := 6\<rparr> \<and>
             es' ! (length ?es + length (filter (is_flam 38 127) (take j ?es))) =
               \<lparr>tick = 0, track = 5, msg = NoteOn c 38 100 d\<rparr> \<and>
             (tick (?es ! j) = 0 \<longrightarrow>
                es' ! (length ?es + length (filter (is_flam 38 127) (take j ?es))) =
                  (es' ! j)\<lparr>track := 5\<rparr>)) \<and>
          ((\<forall>c d. msg (?es ! j) \<noteq> NoteOn c 38 127 d) \<longrightarrow> es' ! j = ?es ! j)"
    by blast
  from len have l3: "length es' = Suc (Suc (Suc 0))" by (simp add: is_flam_def)
  from ev [rule_format, of 0] have e0: "es' ! 0 = \<lparr>tick = 0, track = 6, msg = NoteOn 9 38 100 3\<rparr>"
    and e2: "es' ! Suc (Suc 0) = \<lparr>tick = 0, track = 5, msg = NoteOn 9 38 100 3\<rparr>"
    by simp_all
  from ev [rule_format, of 1] have e1: "es' ! Suc 0 = \<lparr>tick = 0, track = 1, msg = NoteOn 9 38 90 0\<rparr>"
    by simp
  have "es' = [es' ! 0, es' ! Suc 0, es' ! Suc (Suc 0)]"
    using l3 by (auto simp: list_eq_iff_nth_eq less_Suc_eq)
  with e0 e1 e2 d show ?thesis by simp
qed

section \<open>Hand assignment\<close>

lemma dd_get_Nil: "dd_get [] k = []"
  by (simp add: dd_get_def)

lemma dd_get_Cons: "dd_get ((k0, vs) # d) k = (if k = k0 then vs else dd_get d k)"
  by (simp add: dd_get_def)

lemma dd_get_set_track_at:
  "dd_get (set_track_at t p h) k =
     (if k = fst p then (dd_get t k)[snd p := (dd_get t k ! snd p)\<lparr>track := h\<rparr>]
      else dd_get t k)"
proof (induction t)
  case Nil
  then show ?case by (simp add: dd_get_Nil)
next
  case (Cons a t)
  obtain k0 es where a: "a = (k0, es)" by (cases a)
  show ?case using Cons.IH by (auto simp: a dd_get_Cons)
qed

lemma length_dd_get_assign_step:
  "length (dd_get (assign_step hits l r i t) k) = length (dd_get t k)"
  by (simp add: assign_step_def dd_get_set_track_at split: option.splits)

lemma event_at_assign_step_other:
  "q \<noteq> hits ! i \<Longrightarrow> event_at (assign_step hits l r i t) q = event_at t q"
  by (cases q; cases "hits ! i")
    (auto simp: assign_step_def event_at_def dd_get_set_track_at split: option.splits)

lemma event_at_assign_step_same:
  "snd (hits ! i) < length (dd_get t (fst (hits ! i))) \<Longrightarrow>
     event_at (assign_step hits l r i t) (hits ! i) =
       (case hand_for hits i l r of Some h \<Rightarrow> (event_at t (hits ! i))\<lparr>track := h\<rparr>
        | None \<Rightarrow> event_at t (hits ! i))"
  by (auto simp: assign_step_def event_at_def dd_get_set_track_at split: option.splits)

lemma fold_assign_step:
  assumes "distinct (map ((!) hits) js)"
    and "\<forall>i \<in> set js. snd (hits ! i) < length (dd_get t (fst (hits ! i)))"
  shows "(\<forall>i \<in> set js. event_at (fold (assign_step hits l r) js t) (hits ! i) =
            (case hand_for hits i l r of Some h \<Rightarrow> (event_at t (hits ! i))\<lparr>track := h\<rparr>
             | None \<Rightarrow> event_at t (hits ! i))) \<and>
         (\<forall>q. q \<notin> (!) hits ` set js \<longrightarrow>
            event_at (fold (assign_step hits l r) js t) q = event_at t q) \<and>
         (\<forall>k. length (dd_get (fold (assign_step hits l r) js t) k) = length (dd_get t k))"
  using assms
proof (induction js arbitrary: t)
  case Nil
  then show ?case by simp
next
  case (Cons i js)
  let ?t' = "assign_step hits l r i t"
  let ?res = "fold (assign_step hits l r) js ?t'"
  from Cons.prems have d: "distinct (map ((!) hits) js)" and ni: "hits ! i \<notin> (!) hits ` set js"
    by auto
  from Cons.prems(2) have v: "\<forall>i' \<in> set js. snd (hits ! i') < length (dd_get ?t' (fst (hits ! i')))"
    by (simp add: length_dd_get_assign_step)
  note IH = Cons.IH [OF d v]
  from IH have a: "\<And>i'. i' \<in> set js \<Longrightarrow> event_at ?res (hits ! i') =
            (case hand_for hits i' l r of Some h \<Rightarrow> (event_at ?t' (hits ! i'))\<lparr>track := h\<rparr>
             | None \<Rightarrow> event_at ?t' (hits ! i'))"
    and b: "\<And>q. q \<notin> (!) hits ` set js \<Longrightarrow> event_at ?res q = event_at ?t' q"
    and c: "\<And>k. length (dd_get ?res k) = length (dd_get ?t' k)"
    by blast+
  have 1: "event_at ?res (hits ! i') =
            (case hand_for hits i' l r of Some h \<Rightarrow> (event_at t (hits ! i'))\<lparr>track := h\<rparr>
             | None \<Rightarrow> event_at t (hits ! i'))" if "i' \<in> set (i # js)" for i'
  proof (cases "i' \<in> set js")
    case True
    then have "hits ! i' \<in> (!) hits ` set js" by (rule imageI)
    with ni have "hits ! i' \<noteq> hits ! i" by metis
    then have "event_at ?t' (hits ! i') = event_at t (hits ! i')"
      by (rule event_at_assign_step_other)
    with a [OF True] show ?thesis by (simp split: option.splits)
  next
    case False
    with that have i': "i' = i" by simp
    from Cons.prems(2) have "snd (hits ! i) < length (dd_get t (fst (hits ! i)))" by simp
    from event_at_assign_step_same [OF this] b [OF ni] show ?thesis
      by (simp add: i' split: option.splits)
  qed
  have 2: "event_at ?res q = event_at t q" if "q \<notin> (!) hits ` set (i # js)" for q
  proof -
    from that have "q \<notin> (!) hits ` set js" "q \<noteq> hits ! i" by auto
    with b [of q] event_at_assign_step_other [of q hits i l r t] show ?thesis by simp
  qed
  have 3: "length (dd_get ?res k) = length (dd_get t k)" for k
    by (simp add: c length_dd_get_assign_step)
  from 1 2 3 show ?case by simp
qed

lemma distinct_concat_keyed:
  assumes "distinct ks" and "\<And>k. distinct (g k)" and "\<And>k x. x \<in> set (g k) \<Longrightarrow> fst x = k"
  shows "distinct (concat (map g ks))"
  using assms(1)
proof (induction ks)
  case Nil
  then show ?case by simp
next
  case (Cons k ks)
  have "set (g k) \<inter> set (concat (map g ks)) = {}"
  proof (rule ccontr)
    assume "set (g k) \<inter> set (concat (map g ks)) \<noteq> {}"
    then obtain x k' where "x \<in> set (g k)" "k' \<in> set ks" "x \<in> set (g k')" by auto
    with assms(3) have "k = k'" by metis
    with \<open>k' \<in> set ks\<close> Cons.prems show False by simp
  qed
  with Cons assms(2) show ?case by simp
qed

lemma sorted_concat_keyed:
  assumes "sorted ks" and "\<And>k x. x \<in> set (g k) \<Longrightarrow> fst x = k"
  shows "sorted (map fst (concat (map g ks)))"
  using assms(1)
proof (induction ks)
  case Nil
  then show ?case by simp
next
  case (Cons k ks)
  have 1: "sorted (map fst (g k))"
    using assms(2) [of _ k] by (simp add: sorted_iff_nth_mono)
  have 2: "\<forall>x \<in> set (g k). \<forall>y \<in> set (concat (map g ks)). fst x \<le> fst y"
  proof (intro ballI)
    fix x y assume "x \<in> set (g k)" "y \<in> set (concat (map g ks))"
    then obtain k' where "k' \<in> set ks" "y \<in> set (g k')" by auto
    with assms(2) \<open>x \<in> set (g k)\<close> have "fst x = k" "fst y = k'" by auto
    with Cons.prems \<open>k' \<in> set ks\<close> show "fst x \<le> fst y" by simp
  qed
  from Cons 1 2 show ?case by (simp add: sorted_append)
qed

lemma note_hits_valid:
  "(tk, j) \<in> set (note_hits tbl ns) \<Longrightarrow>
     j < length (dd_get tbl tk) \<and> is_hit ns (dd_get tbl tk ! j)"
  by (auto simp: note_hits_def)

lemma distinct_note_hits:
  "distinct (map fst tbl) \<Longrightarrow> distinct (note_hits tbl ns)"
  unfolding note_hits_def
  by (rule distinct_concat_keyed) (auto simp: sorted_keys_def distinct_map inj_on_def)

lemma sorted_note_hits: "sorted (map fst (note_hits tbl ns))"
  unfolding note_hits_def
  by (rule sorted_concat_keyed) (auto simp: sorted_keys_def)

lemma hand_for_cases:
  "hand_for hits i l r =
     (if fst (hits ! i) mod 96 = 0 \<or> fst (hits ! i) mod 96 = 48
      then (if i + 1 < length hits \<and> fst (hits ! (i + 1)) - fst (hits ! i) = 24
            then Some r else None)
      else Some l)"
  by (simp add: hand_for_def Let_def EXPECTED_TPB_def)

text \<open>
  C2, as the code has it. The hits are in chronological order. A hit on a strong beat
  (tick mod 96 equal to 0 or 48) whose next hit is exactly 24 ticks later is routed to
  \<open>right_track\<close>; a strong-beat hit with no successor, or whose next hit is not exactly
  24 ticks later, keeps the track it has; and a hit whose tick mod 96 is neither 0 nor 48
  is routed to \<open>left_track\<close>, whatever its neighbours. In each case only the track of the
  event changes.
\<close>

theorem assign_hands_for_note_routes:
  assumes "distinct (map fst tbl)"
    and "hits = note_hits tbl notes"
    and "i < length hits"
    and "e = event_at tbl (hits ! i)"
    and "e' = event_at (assign_hands_for_note tbl notes left_track right_track) (hits ! i)"
  shows "sorted (map fst hits) \<and> is_hit notes e \<and>
    ((fst (hits ! i) mod 96 = 0 \<or> fst (hits ! i) mod 96 = 48) \<and>
      i + 1 < length hits \<and> fst (hits ! (i + 1)) - fst (hits ! i) = 24
        \<longrightarrow> e' = e\<lparr>track := right_track\<rparr>) \<and>
    ((fst (hits ! i) mod 96 = 0 \<or> fst (hits ! i) mod 96 = 48) \<and>
      \<not> (i + 1 < length hits \<and> fst (hits ! (i + 1)) - fst (hits ! i) = 24)
        \<longrightarrow> e' = e) \<and>
    (\<not> (fst (hits ! i) mod 96 = 0 \<or> fst (hits ! i) mod 96 = 48)
        \<longrightarrow> e' = e\<lparr>track := left_track\<rparr>)"
proof -
  have valid: "snd (hits ! k) < length (dd_get tbl (fst (hits ! k))) \<and>
      is_hit notes (dd_get tbl (fst (hits ! k)) ! snd (hits ! k))" if "k < length hits" for k
  proof -
    from that have "(fst (hits ! k), snd (hits ! k)) \<in> set (note_hits tbl notes)"
      by (simp add: assms(2))
    then show ?thesis by (rule note_hits_valid)
  qed
  have d: "distinct (map ((!) hits) [0..<length hits])"
    using distinct_note_hits [OF assms(1), of "notes"] by (simp add: map_nth assms(2))
  have v: "\<forall>k \<in> set [0..<length hits].
      snd (hits ! k) < length (dd_get tbl (fst (hits ! k)))"
    using valid by simp
  from fold_assign_step [OF d v, of left_track right_track, THEN conjunct1] assms(3)
  have "event_at (fold (assign_step hits left_track right_track) [0..<length hits] tbl) (hits ! i) =
      (case hand_for hits i left_track right_track of
         Some h \<Rightarrow> (event_at tbl (hits ! i))\<lparr>track := h\<rparr>
       | None \<Rightarrow> event_at tbl (hits ! i))"
    by simp
  then have e': "e' = (case hand_for hits i left_track right_track of
         Some h \<Rightarrow> e\<lparr>track := h\<rparr> | None \<Rightarrow> e)"
    unfolding assms(4) assms(5) assign_hands_for_note_def Let_def assms(2) [symmetric]
    by (simp split: option.splits)
  have s: "sorted (map fst hits)" unfolding assms(2) by (rule sorted_note_hits)
  have h: "is_hit notes e" using valid [OF assms(3)] by (simp add: assms(4) event_at_def)
  from s h e' show ?thesis by (simp add: hand_for_cases)
qed

theorem assign_hands_for_note_routes_witness:
  "event_at (assign_hands_for_note tblH [38] 5 6) (0, 0) =
     \<lparr>tick = 0, track = 6, msg = NoteOn 9 38 100 0\<rparr> \<and>
   event_at (assign_hands_for_note tblH [38] 5 6) (24, 0) =
     \<lparr>tick = 24, track = 5, msg = NoteOn 9 38 100 24\<rparr> \<and>
   event_at (assign_hands_for_note tblH [38] 5 6) (96, 0) =
     \<lparr>tick = 96, track = 0, msg = NoteOn 9 38 100 72\<rparr>"
proof -
  have d: "distinct (map fst tblH)" by (simp add: tblH_def)
  have h: "note_hits tblH [38] = [(0, 0), (24, 0), (96, 0)]" by code_simp
  have e0: "event_at tblH (0, 0) = \<lparr>tick = 0, track = 0, msg = NoteOn 9 38 100 0\<rparr>"
    and e1: "event_at tblH (24, 0) = \<lparr>tick = 24, track = 0, msg = NoteOn 9 38 100 24\<rparr>"
    and e2: "event_at tblH (96, 0) = \<lparr>tick = 96, track = 0, msg = NoteOn 9 38 100 72\<rparr>"
    by (simp_all add: event_at_def tblH_def dd_get_def)
  note r = assign_hands_for_note_routes [OF d refl _ refl refl, of _ "[38]" 5 6]
  from r [of 0] have "event_at (assign_hands_for_note tblH [38] 5 6) (0, 0) =
      (event_at tblH (0, 0))\<lparr>track := 6\<rparr>"
    by (simp add: h)
  moreover from r [of 1] have "event_at (assign_hands_for_note tblH [38] 5 6) (24, 0) =
      (event_at tblH (24, 0))\<lparr>track := 5\<rparr>"
    by (simp add: h)
  moreover from r [of 2] have "event_at (assign_hands_for_note tblH [38] 5 6) (96, 0) =
      event_at tblH (96, 0)"
    by (simp add: h)
  ultimately show ?thesis by (simp add: e0 e1 e2)
qed

text \<open>
  C2, as stated, sends the strong-beat hit followed 24 ticks later and every weak-beat hit
  to one and the same off-hand track. With hits at ticks 0 and 24 and the tracks 5 and 6
  of the pipeline, the hit at tick 0 (strong, next hit 24 ticks later) goes to track 6 and
  the hit at tick 24 (weak) goes to track 5: two different tracks.
\<close>

theorem assign_hands_for_note_same_track_counterexample:
  "assign_hands_for_note
     [(0, [\<lparr>tick = 0, track = 0, msg = NoteOn 9 38 100 0\<rparr>]),
      (24, [\<lparr>tick = 24, track = 0, msg = NoteOn 9 38 100 24\<rparr>])] [38] 5 6 =
     [(0, [\<lparr>tick = 0, track = 6, msg = NoteOn 9 38 100 0\<rparr>]),
      (24, [\<lparr>tick = 24, track = 5, msg = NoteOn 9 38 100 24\<rparr>])] \<and>
   note_hits
     [(0, [\<lparr>tick = 0, track = 0, msg = NoteOn 9 38 100 0\<rparr>]),
      (24, [\<lparr>tick = 24, track = 0, msg = NoteOn 9 38 100 24\<rparr>])] [38] = [(0, 0), (24, 0)] \<and>
   (0::int) mod 96 = 0 \<and> (24::int) - 0 = 24 \<and> (24::int) mod 96 \<noteq> 0 \<and> (24::int) mod 96 \<noteq> 48 \<and>
   (6::int) \<noteq> 5"
  by code_simp

section \<open>Synthesis of note-off messages\<close>

lemma dd_get_dd_append:
  "dd_get (dd_append k v d) k' = (if k' = k then dd_get d k @ [v] else dd_get d k')"
  by (induction d) (auto simp: dd_get_Nil dd_get_Cons)

lemma map_fst_dd_append:
  "map fst (dd_append k v d) = (if k \<in> set (map fst d) then map fst d else map fst d @ [k])"
proof (induction d)
  case Nil
  then show ?case by simp
next
  case (Cons a d)
  obtain k0 vs where a: "a = (k0, vs)" by (cases a)
  show ?case using Cons.IH by (cases "k0 = k") (simp_all add: a)
qed

lemma keys_dd_append: "set (map fst (dd_append k v d)) = insert k (set (map fst d))"
  unfolding map_fst_dd_append by auto

lemma dd_get_fold_track:
  "dd_get (fold (\<lambda>e d. dd_append (track e) e d) es d0) k =
     dd_get d0 k @ filter (\<lambda>e. track e = k) es"
  by (induction es arbitrary: d0) (auto simp: dd_get_dd_append)

lemma keys_fold_track:
  "set (map fst (fold (\<lambda>e d. dd_append (track e) e d) es d0)) =
     set (map fst d0) \<union> track ` set es"
proof (induction es arbitrary: d0)
  case Nil
  then show ?case by simp
next
  case (Cons e es)
  have "set (map fst (fold (\<lambda>e d. dd_append (track e) e d) es (dd_append (track e) e d0))) =
      set (map fst (dd_append (track e) e d0)) \<union> track ` set es"
    by (rule Cons.IH)
  then show ?case unfolding keys_dd_append by auto
qed

lemma dd_get_distinct:
  "distinct (map fst d) \<Longrightarrow> (k, vs) \<in> set d \<Longrightarrow> dd_get d k = vs"
  by (simp add: dd_get_def)

lemma set_ordered_events:
  assumes "distinct (map fst tbl)"
  shows "set (concat (map (dd_get tbl) (sorted_keys tbl))) = set (all_events tbl)"
proof -
  have "(\<Union>k \<in> fst ` set tbl. set (dd_get tbl k)) = (\<Union>p \<in> set tbl. set (snd p))"
  proof (intro set_eqI iffI)
    fix x assume "x \<in> (\<Union>k \<in> fst ` set tbl. set (dd_get tbl k))"
    then obtain k vs where "(k, vs) \<in> set tbl" "x \<in> set (dd_get tbl k)" by auto
    with dd_get_distinct [OF assms] show "x \<in> (\<Union>p \<in> set tbl. set (snd p))" by force
  next
    fix x assume "x \<in> (\<Union>p \<in> set tbl. set (snd p))"
    then obtain k vs where kv: "(k, vs) \<in> set tbl" "x \<in> set vs" by auto
    with dd_get_distinct [OF assms] have "x \<in> set (dd_get tbl k)" by simp
    with kv(1) show "x \<in> (\<Union>k \<in> fst ` set tbl. set (dd_get tbl k))" by force
  qed
  then show ?thesis by (simp add: sorted_keys_def all_events_def)
qed

lemma mtime_copy_time [simp]: "mtime (copy_time d m) = d"
  by (cases m) auto

lemma is_note_off_copy_time [simp]: "is_note_off (copy_time d m) = is_note_off m"
  by (cases m) auto

lemma is_note_on_copy_time [simp]: "is_note_on (copy_time d m) = is_note_on m"
  by (cases m) auto

lemma abs_ticks_delta_times:
  "abs_ticks l (delta_times l xs) =
     map (\<lambda>(p, q). (fst q, copy_time (fst q - p) (snd q))) (zip (l # map fst xs) xs)"
  by (induction xs arbitrary: l) auto

lemma abs_ticks_delta_times_sound:
  assumes "(a, m') \<in> set (abs_ticks l (delta_times l xs))"
  shows "\<exists>m d. (a, m) \<in> set xs \<and> m' = copy_time d m"
proof -
  from assms obtain p q where "(p, q) \<in> set (zip (l # map fst xs) xs)"
    and "a = fst q" "m' = copy_time (fst q - p) (snd q)"
    unfolding abs_ticks_delta_times by auto
  moreover then have "q \<in> set xs" by (auto dest: set_zip_rightD)
  ultimately show ?thesis by (cases q) auto
qed

lemma abs_ticks_delta_times_complete:
  "(a, m) \<in> set xs \<Longrightarrow> \<exists>d. (a, copy_time d m) \<in> set (abs_ticks l (delta_times l xs))"
proof (induction xs arbitrary: l)
  case Nil
  then show ?case by simp
next
  case (Cons x xs)
  obtain t m0 where x: "x = (t, m0)" by (cases x)
  show ?case
  proof (cases "(a, m) = x")
    case True
    then show ?thesis by (auto simp: x intro: exI [of _ "t - l"])
  next
    case False
    with Cons.prems have "(a, m) \<in> set xs" by simp
    from Cons.IH [OF this, of t] show ?thesis by (auto simp: x)
  qed
qed

lemma flat_events_note_on:
  "e \<in> set evs \<Longrightarrow> msg e = NoteOn c n v d \<Longrightarrow>
     (tick e, NoteOn c n v d) \<in> set (flat_events evs) \<and>
     (tick e + DEFAULT_DURATION, NoteOff c n 0 0) \<in> set (flat_events evs)"
  by (induction evs) auto

lemma flat_events_note_off:
  "(a, NoteOff c n v d) \<in> set (flat_events evs) \<Longrightarrow>
     (\<exists>e \<in> set evs. msg e = NoteOff c n v d) \<or>
     (v = 0 \<and> d = 0 \<and>
      (\<exists>e \<in> set evs. \<exists>v' d'. msg e = NoteOn c n v' d' \<and> a = tick e + DEFAULT_DURATION))"
proof (induction evs)
  case Nil
  then show ?case by simp
next
  case (Cons e evs)
  show ?case
  proof (cases "(a, NoteOff c n v d) \<in> set (flat_events evs)")
    case True
    from Cons.IH [OF this] show ?thesis by simp blast
  next
    case False
    with Cons.prems show ?thesis
      by (cases "msg e") (auto split: if_splits)
  qed
qed

lemma count_flat_events:
  "\<forall>e \<in> set evs. \<not> is_note_off (msg e) \<Longrightarrow>
     length (filter (\<lambda>p. is_note_off (snd p)) (flat_events evs)) =
       length (filter (\<lambda>e. is_note_on (msg e)) evs) \<and>
     length (filter (\<lambda>p. is_note_on (snd p)) (flat_events evs)) =
       length (filter (\<lambda>e. is_note_on (msg e)) evs)"
  by (induction evs) auto

lemma filter_delta_times:
  "(\<And>d m. P (copy_time d m) = P m) \<Longrightarrow>
     length (filter P (delta_times l xs)) = length (filter (\<lambda>p. P (snd p)) xs)"
  by (induction xs arbitrary: l) auto

lemma length_filter_sort_key:
  "length (filter P (sort_key f xs)) = length (filter P xs)"
  by (simp add: filter_sort)

lemma written_tracks_mem:
  "tr \<in> set (written_tracks tbl in_track) \<longleftrightarrow>
     (\<exists>k. k \<in> track ` set (concat (map (dd_get tbl) (sorted_keys tbl))) \<and>
          (in_track < 0 \<or> k = in_track) \<and>
          tr = new_track (filter (\<lambda>e. track e = k)
                 (concat (map (dd_get tbl) (sorted_keys tbl)))))"
proof -
  let ?ord = "concat (map (dd_get tbl) (sorted_keys tbl))"
  have k: "set (sorted_keys (track_events tbl)) = track ` set ?ord"
    using keys_fold_track [of ?ord "[]"] by (simp add: sorted_keys_def track_events_def)
  have g: "dd_get (track_events tbl) k = filter (\<lambda>e. track e = k) ?ord" for k
    by (simp add: track_events_def dd_get_fold_track dd_get_Nil)
  have "set (written_tracks tbl in_track) =
      (\<lambda>k. new_track (filter (\<lambda>e. track e = k) ?ord)) `
        {k \<in> track ` set ?ord. in_track < 0 \<or> k = in_track}"
    unfolding written_tracks_def Let_def set_map set_filter k g
    by (intro arg_cong2 [where f = image] refl) auto
  then show ?thesis by auto
qed

lemma new_track_note_on:
  assumes "e \<in> set evs" and "msg e = NoteOn c n v d"
  shows "\<exists>d1 d2. (tick e, NoteOn c n v d1) \<in> set (abs_ticks 0 (messages (new_track evs))) \<and>
      (tick e + DEFAULT_DURATION, NoteOff c n 0 d2) \<in> set (abs_ticks 0 (messages (new_track evs)))"
proof -
  let ?xs = "sort_key fst (flat_events evs)"
  from flat_events_note_on [OF assms]
  have "(tick e, NoteOn c n v d) \<in> set ?xs" "(tick e + DEFAULT_DURATION, NoteOff c n 0 0) \<in> set ?xs"
    by simp_all
  from abs_ticks_delta_times_complete [OF this(1), of 0]
    abs_ticks_delta_times_complete [OF this(2), of 0]
  show ?thesis by (auto simp: new_track_def)
qed

lemma new_track_note_off:
  assumes "\<forall>e \<in> set evs. \<not> is_note_off (msg e)"
    and "(a, NoteOff c n v d) \<in> set (abs_ticks 0 (messages (new_track evs)))"
  shows "v = 0 \<and> (\<exists>e \<in> set evs. \<exists>v' d'. msg e = NoteOn c n v' d' \<and>
     a = tick e + DEFAULT_DURATION)"
proof -
  from assms(2) obtain m d0 where m: "(a, m) \<in> set (flat_events evs)"
    and c: "NoteOff c n v d = copy_time d0 m"
    by (auto simp: new_track_def dest!: abs_ticks_delta_times_sound)
  from c obtain t where "m = NoteOff c n v t" by (cases m) auto
  with m have "(a, NoteOff c n v t) \<in> set (flat_events evs)" by simp
  from flat_events_note_off [OF this] assms(1) show ?thesis by force
qed

lemma new_track_count:
  assumes "\<forall>e \<in> set evs. \<not> is_note_off (msg e)"
  shows "length (filter is_note_off (messages (new_track evs))) =
         length (filter is_note_on (messages (new_track evs)))"
  using count_flat_events [OF assms]
  by (simp add: new_track_def filter_delta_times length_filter_sort_key)

text \<open>
  The loop that builds the tracks. The table is a dictionary (each tick a key once) without
  \<^verbatim>\<open>note_off\<close> events; the tick of a written message is the running sum of the delta
  times of its track. For every note-on event of the table (on the selected track, when one
  is selected) a built track holds the note-on at the event's tick and a \<^verbatim>\<open>note_off\<close> at
  that tick plus \<open>DEFAULT_DURATION\<close> with the same note and channel and velocity 0. Every
  \<^verbatim>\<open>note_off\<close> of a built track has velocity 0 and stands \<open>DEFAULT_DURATION\<close> ticks after
  a note-on event of the table with the same note and channel, in the same track; each
  built track holds as many \<^verbatim>\<open>note_off\<close> as \<^verbatim>\<open>note_on\<close> messages.
\<close>

lemma written_tracks_note_offs:
  assumes "distinct (map fst tbl)" and "no_note_off tbl"
  shows
   "(\<forall>e c n v d. e \<in> set (all_events tbl) \<and> msg e = NoteOn c n v d \<and>
        (in_track < 0 \<or> track e = in_track) \<longrightarrow>
      (\<exists>tr d1 d2. tr \<in> set (written_tracks tbl in_track) \<and>
         (tick e, NoteOn c n v d1) \<in> set (abs_ticks 0 (messages tr)) \<and>
         (tick e + DEFAULT_DURATION, NoteOff c n 0 d2) \<in> set (abs_ticks 0 (messages tr)))) \<and>
    (\<forall>tr a c n v d. tr \<in> set (written_tracks tbl in_track) \<and>
        (a, NoteOff c n v d) \<in> set (abs_ticks 0 (messages tr)) \<longrightarrow>
      v = 0 \<and>
      (\<exists>e v' d' d1. e \<in> set (all_events tbl) \<and> msg e = NoteOn c n v' d' \<and>
         a = tick e + DEFAULT_DURATION \<and>
         (tick e, NoteOn c n v' d1) \<in> set (abs_ticks 0 (messages tr)))) \<and>
    (\<forall>tr. tr \<in> set (written_tracks tbl in_track) \<longrightarrow>
      length (filter is_note_off (messages tr)) = length (filter is_note_on (messages tr)))"
proof (intro conjI allI impI)
  define ord where "ord = concat (map (dd_get tbl) (sorted_keys tbl))"
  have ord: "set ord = set (all_events tbl)"
    unfolding ord_def by (rule set_ordered_events [OF assms(1)])
  note wm = written_tracks_mem [of _ tbl in_track, folded ord_def]
  have noff: "\<forall>e \<in> set (filter (\<lambda>e. track e = k) ord). \<not> is_note_off (msg e)" for k
    using assms(2) unfolding set_filter ord no_note_off_iff by blast
  {
    fix e c n v d
    assume a: "e \<in> set (all_events tbl) \<and> msg e = NoteOn c n v d \<and>
        (in_track < 0 \<or> track e = in_track)"
    let ?evs = "filter (\<lambda>x. track x = track e) ord"
    from a have "e \<in> set ?evs" by (simp add: ord)
    from new_track_note_on [OF this, of c n v d] a
    obtain d1 d2 where "(tick e, NoteOn c n v d1) \<in> set (abs_ticks 0 (messages (new_track ?evs)))"
      "(tick e + DEFAULT_DURATION, NoteOff c n 0 d2) \<in> set (abs_ticks 0 (messages (new_track ?evs)))"
      by blast
    moreover have "new_track ?evs \<in> set (written_tracks tbl in_track)"
      unfolding wm using a by (intro exI [of _ "track e"]) (simp add: ord)
    ultimately show "\<exists>tr d1 d2. tr \<in> set (written_tracks tbl in_track) \<and>
         (tick e, NoteOn c n v d1) \<in> set (abs_ticks 0 (messages tr)) \<and>
         (tick e + DEFAULT_DURATION, NoteOff c n 0 d2) \<in> set (abs_ticks 0 (messages tr))"
      by blast
  }
  {
    fix tr a c n v d
    assume a: "tr \<in> set (written_tracks tbl in_track) \<and>
        (a, NoteOff c n v d) \<in> set (abs_ticks 0 (messages tr))"
    then obtain k where tr: "tr = new_track (filter (\<lambda>e. track e = k) ord)"
      unfolding wm by blast
    let ?evs = "filter (\<lambda>e. track e = k) ord"
    from a have m: "(a, NoteOff c n v d) \<in> set (abs_ticks 0 (messages (new_track ?evs)))"
      by (simp add: tr)
    from new_track_note_off [OF noff m] show "v = 0" by simp
    from new_track_note_off [OF noff m] obtain e v' d' where e: "e \<in> set ?evs"
      "msg e = NoteOn c n v' d'" "a = tick e + DEFAULT_DURATION" by blast
    from new_track_note_on [OF e(1,2)] obtain d1 where
      "(tick e, NoteOn c n v' d1) \<in> set (abs_ticks 0 (messages tr))"
      unfolding tr by blast
    moreover from e(1) have "e \<in> set (all_events tbl)" by (simp add: ord)
    ultimately show "\<exists>e v' d' d1. e \<in> set (all_events tbl) \<and> msg e = NoteOn c n v' d' \<and>
         a = tick e + DEFAULT_DURATION \<and>
         (tick e, NoteOn c n v' d1) \<in> set (abs_ticks 0 (messages tr))"
      using e(2,3) by blast
  }
  {
    fix tr assume "tr \<in> set (written_tracks tbl in_track)"
    then obtain k where tr: "tr = new_track (filter (\<lambda>e. track e = k) ord)"
      unfolding wm by blast
    show "length (filter is_note_off (messages tr)) = length (filter is_note_on (messages tr))"
      unfolding tr by (rule new_track_count [OF noff])
  }
qed

text \<open>
  The built tracks reach \<^verbatim>\<open>save\<close> only when there are at least two of them: otherwise one
  of the two assignments of a track name raises IndexError. With a selected track
  (\<open>in_track \<ge> 0\<close>) at most one track is built, so the function always raises.
\<close>

lemma write_midi_raises_iff:
  "write_midi tbl in_track = Inl IndexError \<longleftrightarrow> length (written_tracks tbl in_track) < 2"
  by (auto simp: write_midi_def Let_def)

lemma write_midi_error_cases:
  "write_midi tbl in_track = Inl err \<Longrightarrow> err = IndexError"
  by (auto simp: write_midi_def Let_def split: if_splits)

lemma distinct_keys_dd_append:
  "distinct (map fst d) \<Longrightarrow> distinct (map fst (dd_append k v d))"
  unfolding map_fst_dd_append by simp

lemma distinct_keys_track_events: "distinct (map fst (track_events tbl))"
proof -
  have "distinct (map fst d0) \<Longrightarrow>
      distinct (map fst (fold (\<lambda>e d. dd_append (track e) e d) es d0))" for es d0
    by (induction es arbitrary: d0) (simp_all add: distinct_keys_dd_append)
  from this [of "[]"] show ?thesis by (simp add: track_events_def)
qed

lemma length_filter_eq_distinct:
  "distinct xs \<Longrightarrow> length (filter (\<lambda>k. k = a) xs) \<le> 1"
  by (induction xs) (auto simp: filter_empty_conv)

lemma write_midi_in_track_raises:
  assumes "0 \<le> in_track"
  shows "write_midi tbl in_track = Inl IndexError"
proof -
  have "distinct (sorted_keys (track_events tbl))"
    using distinct_keys_track_events [of tbl] by (simp add: sorted_keys_def)
  from length_filter_eq_distinct [OF this, of in_track] assms
  have "length (written_tracks tbl in_track) \<le> 1"
    by (simp add: written_tracks_def Let_def)
  then show ?thesis by (simp add: write_midi_raises_iff)
qed

text \<open>
  When a container is returned, naming the first two tracks changes \<^verbatim>\<open>track_name\<close>
  messages only: every other message keeps its place, content and tick.
\<close>

lemma abs_ticks_rename_first:
  "filter (\<lambda>p. \<not> is_track_name (snd p)) (abs_ticks a (rename_first nm ms)) =
   filter (\<lambda>p. \<not> is_track_name (snd p)) (abs_ticks a ms)"
proof (induction ms arbitrary: a)
  case Nil
  then show ?case by simp
next
  case (Cons m ms)
  then show ?case by (cases m) simp_all
qed

lemma abs_ticks_set_name:
  "filter (\<lambda>p. \<not> is_track_name (snd p)) (abs_ticks 0 (messages (set_name nm tr))) =
   filter (\<lambda>p. \<not> is_track_name (snd p)) (abs_ticks 0 (messages tr))"
  by (simp add: set_name_def abs_ticks_rename_first)

lemma write_midi_keeps_notes:
  assumes "write_midi tbl in_track = Inr out"
  shows "ticks_per_beat out = EXPECTED_TPB \<and>
    map (\<lambda>tr. filter (\<lambda>p. \<not> is_track_name (snd p)) (abs_ticks 0 (messages tr))) (tracks out) =
    map (\<lambda>tr. filter (\<lambda>p. \<not> is_track_name (snd p)) (abs_ticks 0 (messages tr)))
      (written_tracks tbl in_track)"
proof -
  let ?trs = "written_tracks tbl in_track"
  let ?f = "\<lambda>tr. filter (\<lambda>p. \<not> is_track_name (snd p)) (abs_ticks 0 (messages tr))"
  let ?t1 = "?trs[0 := set_name ''RH'' (?trs ! 0)]"
  from assms have l: "1 < length ?trs"
    and out: "out = \<lparr>ticks_per_beat = EXPECTED_TPB,
        tracks = ?t1[1 := set_name ''LH'' (?t1 ! 1)]\<rparr>"
    by (auto simp: write_midi_def Let_def split: if_splits)
  have u: "map ?f (xs[i := set_name nm (xs ! i)]) = map ?f xs"
    if "i < length xs" for xs :: "midi_track list" and i nm
    using that by (simp add: map_update abs_ticks_set_name list_update_same_conv)
  from l have l0: "0 < length ?trs" by linarith
  then have "map ?f ?t1 = map ?f ?trs" by (rule u)
  moreover from l have "1 < length ?t1" by simp
  then have "map ?f (?t1[1 := set_name ''LH'' (?t1 ! 1)]) = map ?f ?t1" by (rule u)
  ultimately have "map ?f (tracks out) = map ?f ?trs"
    unfolding out by simp
  moreover have "ticks_per_beat out = EXPECTED_TPB" unfolding out by simp
  ultimately show ?thesis by simp
qed

text \<open>
  C5. A table whose events are all on one track: the track is built, with the note-on and
  its \<^verbatim>\<open>note_off\<close> eight ticks later, but \<^verbatim>\<open>write_midi\<close> then raises IndexError at
  \<^verbatim>\<open>new_mid.tracks[1].name = 'LH'\<close>, before the container is saved: no \<^verbatim>\<open>note_off\<close>, and
  no message at all, is emitted for the note-on of the table. The whole run on a file that
  holds a single kick note (96) ends this way.
\<close>

theorem write_midi_one_track_raises:
  "written_tracks [(0, [\<lparr>tick = 0, track = 2, msg = NoteOn 9 36 100 0\<rparr>])] (- 1) =
     [\<lparr>messages = [NoteOn 9 36 100 0, NoteOff 9 36 0 8]\<rparr>] \<and>
   write_midi [(0, [\<lparr>tick = 0, track = 2, msg = NoteOn 9 36 100 0\<rparr>])] (- 1) = Inl IndexError \<and>
   main \<lparr>ticks_per_beat = 96, tracks = [\<lparr>messages = [NoteOn 9 96 100 0]\<rparr>]\<rparr> = Inl IndexError"
  by code_simp

text \<open>A table with two tracks, one of which carries a \<^verbatim>\<open>track_name\<close> message.\<close>

lemma write_midi_two_tracks_example:
  "write_midi [(10, [\<lparr>tick = 10, track = 2, msg = NoteOn 9 38 100 0\<rparr>,
                    \<lparr>tick = 10, track = 5, msg = NoteOn 9 38 100 0\<rparr>]),
               (4, [\<lparr>tick = 4, track = 2, msg = NoteOn 9 40 100 0\<rparr>,
                    \<lparr>tick = 4, track = 2, msg = TrackName ''drums'' 3\<rparr>])] (- 1) =
     Inr \<lparr>ticks_per_beat = 96,
          tracks = [\<lparr>messages = [NoteOn 9 40 100 4, TrackName ''RH'' 0, NoteOn 9 38 100 6,
                                 NoteOff 9 40 0 2, NoteOff 9 38 0 6]\<rparr>,
                    \<lparr>messages = [TrackName ''LH'' 0, NoteOn 9 38 100 10, NoteOff 9 38 0 8]\<rparr>]\<rparr>"
  by code_simp

end
